theory Spec2Isabelle
  imports Main "HOL-Library.Sublist"
begin

section \<open>Data model of the diff calculator\<close>

text \<open>
  JavaScript objects are handled by reference.  Entries of a relation and the observed
  array are therefore addresses into a store; \<open>==\<close> on two entries compares addresses.
\<close>

type_synonym ref = nat

text \<open>Operator kinds of the evaluator registry; the calculator only ever asks for \<open>EQ\<close>.\<close>

datatype eval_type = EQ | NotEQ

record 't column =
  getName :: string
  getType :: "'t"

record 't table =
  getColumns :: "'t column list"

text \<open>The query context: \<open>columns\<close>, \<open>from\<close> and the optional \<open>innerJoin\<close>.\<close>

record 't select_context =
  columns :: "'t column list"
  from_tables :: "'t table list"
  innerJoin :: "'t table option"

text \<open>A relation entry offers \<open>getField(column)\<close> and \<open>row.payload()\<close>.\<close>

record ('t, 'v, 'p) relation_entry =
  getField :: "'t column \<Rightarrow> 'v"
  row_payload :: "'p"

record relation =
  entries :: "ref list"

text \<open>The members the constructor binds on \<open>this\<close>.\<close>

record ('t, 'v) diff_calculator =
  this_evalRegistry :: "'t \<Rightarrow> eval_type \<Rightarrow> 'v \<Rightarrow> 'v \<Rightarrow> bool"
  this_query :: "'t select_context"
  this_observableResults :: ref
  this_columns :: "'t column list"

text \<open>
  A call of \<open>Array.prototype.splice\<close>: the array it is applied to, the start index,
  the delete count, the elements it took out (its return value) and the inserted items.
\<close>

record 'p splice_call =
  target :: ref
  start :: nat
  deleteCount :: nat
  removed :: "'p list"
  items :: "'p list"

text \<open>
  The store: the calculator instance, the entry objects, the arrays, and the log of the
  splice calls made so far (each with the elements it took out).
\<close>

record ('t, 'v, 'p) world =
  this :: "('t, 'v) diff_calculator"
  objects :: "ref \<Rightarrow> ('t, 'v, 'p) relation_entry"
  arrays :: "ref \<Rightarrow> 'p list"
  splices :: "'p splice_call list"

section \<open>Array primitives\<close>

text \<open>
  \<open>xs.splice(s, d, items...)\<close> for non-negative \<open>s\<close> and \<open>d\<close>: a start beyond the end is
  clamped to the length, fewer than \<open>d\<close> elements are removed when the array ends first.
\<close>

definition splice_removed :: "nat \<Rightarrow> nat \<Rightarrow> 'a list \<Rightarrow> 'a list" where
  "splice_removed s d xs = take d (drop s xs)"

definition splice_array :: "nat \<Rightarrow> nat \<Rightarrow> 'a list \<Rightarrow> 'a list \<Rightarrow> 'a list" where
  "splice_array s d its xs = take s xs @ its @ drop (s + d) xs"

definition splice :: "ref \<Rightarrow> nat \<Rightarrow> nat \<Rightarrow> 'p list \<Rightarrow> ('t, 'v, 'p) world \<Rightarrow> ('t, 'v, 'p) world" where
  "splice a s d its w =
     w\<lparr>arrays := (arrays w)(a := splice_array s d its (arrays w a)),
       splices := splices w @
         [\<lparr>target = a, start = s, deleteCount = d,
           removed = splice_removed s d (arrays w a), items = its\<rparr>]\<rparr>"

text \<open>
  \<open>Array.prototype.every\<close> calls the callback on the elements from left to right and
  stops at the first element on which it fails.  A run gives the result together with
  the elements the callback has been called on, in the order of the calls.
\<close>

fun every_run :: "('a \<Rightarrow> bool) \<Rightarrow> 'a list \<Rightarrow> bool \<times> 'a list" where
  "every_run f [] = (True, [])"
| "every_run f (x # xs) =
     (if f x then (fst (every_run f xs), x # snd (every_run f xs)) else (False, [x]))"

definition every :: "('a \<Rightarrow> bool) \<Rightarrow> 'a list \<Rightarrow> bool" where
  "every f xs = fst (every_run f xs)"

section \<open>The longest-common-subsequence engine\<close>

text \<open>
  Modelled from the spec: \<open>goog.math.longestCommonSubsequence\<close> belongs to the Closure
  library and is not part of the sources.  Section 4.3 of the specification describes it:
  a length table over the prefixes of both sequences, and a walk back from the last cell
  that takes the diagonal whenever the two elements are equal under \<open>equalFn\<close> and
  otherwise moves to the neighbour with the larger table value, up (one element of the
  first sequence less) on a tie.  Every matched index pair goes through the collector.
\<close>

fun lcs_table :: "('a \<Rightarrow> 'b \<Rightarrow> bool) \<Rightarrow> 'a list \<Rightarrow> 'b list \<Rightarrow> nat \<Rightarrow> nat \<Rightarrow> nat" where
  "lcs_table eq A B 0 j = 0"
| "lcs_table eq A B (Suc i) 0 = 0"
| "lcs_table eq A B (Suc i) (Suc j) =
     (if eq (A ! i) (B ! j) then lcs_table eq A B i j + 1
      else max (lcs_table eq A B i (Suc j)) (lcs_table eq A B (Suc i) j))"

text \<open>
  Modelled from the spec: the walk back from the cell \<open>(i, j)\<close>; a matched pair is
  put in front of what has been collected.
\<close>

fun lcs_backtrack ::
  "('a \<Rightarrow> 'b \<Rightarrow> bool) \<Rightarrow> 'a list \<Rightarrow> 'b list \<Rightarrow> (nat \<Rightarrow> nat \<Rightarrow> 'c) \<Rightarrow> nat \<Rightarrow> nat \<Rightarrow> 'c list \<Rightarrow> 'c list"
where
  "lcs_backtrack eq A B collect 0 j acc = acc"
| "lcs_backtrack eq A B collect (Suc i) 0 acc = acc"
| "lcs_backtrack eq A B collect (Suc i) (Suc j) acc =
     (if eq (A ! i) (B ! j) then lcs_backtrack eq A B collect i j (collect i j # acc)
      else if lcs_table eq A B (Suc i) j \<le> lcs_table eq A B i (Suc j)
        then lcs_backtrack eq A B collect i (Suc j) acc
        else lcs_backtrack eq A B collect (Suc i) j acc)"

text \<open>Modelled from the spec: the engine starts the walk at the last cell.\<close>

definition longestCommonSubsequence ::
  "'a list \<Rightarrow> 'b list \<Rightarrow> ('a \<Rightarrow> 'b \<Rightarrow> bool) \<Rightarrow> (nat \<Rightarrow> nat \<Rightarrow> 'c) \<Rightarrow> 'c list" where
  "longestCommonSubsequence A B eq collect =
     lcs_backtrack eq A B collect (length A) (length B) []"

text \<open>
  What a common subsequence is, for any relation \<open>eq\<close> between the elements: index
  pairs inside the first \<open>i\<close> elements of \<open>A\<close> and the first \<open>j\<close> of \<open>B\<close> that increase
  in both components and relate the elements they point at.
\<close>

definition common_subsequence ::
  "('a \<Rightarrow> 'b \<Rightarrow> bool) \<Rightarrow> 'a list \<Rightarrow> 'b list \<Rightarrow> nat \<Rightarrow> nat \<Rightarrow> (nat \<times> nat) list \<Rightarrow> bool" where
  "common_subsequence eq A B i j ps \<longleftrightarrow>
     sorted_wrt (\<lambda>p q. fst p < fst q \<and> snd p < snd q) ps \<and>
     list_all (\<lambda>p. fst p < i \<and> snd p < j \<and> eq (A ! fst p) (B ! snd p)) ps"

section \<open>The calculator\<close>

text \<open>
  \<open>detectColumns_\<close>: the projected columns when there are any; otherwise the columns of
  every table of \<open>from\<close>, then of \<open>innerJoin\<close> when it is defined and not null, pushed
  one at a time.
\<close>

definition detectColumns :: "'t select_context \<Rightarrow> 't column list" where
  "detectColumns q =
     (if length (columns q) > 0 then columns q
      else
        let tables = from_tables q;
            tables = (case innerJoin q of None \<Rightarrow> tables | Some t \<Rightarrow> tables @ [t])
        in foldl (\<lambda>cols table. foldl (\<lambda>cols c. cols @ [c]) cols (getColumns table)) [] tables)"

text \<open>The constructor; \<open>global.getService(EVAL_REGISTRY)\<close> is the registry it is given.\<close>

definition DiffCalculator ::
  "('t \<Rightarrow> eval_type \<Rightarrow> 'v \<Rightarrow> 'v \<Rightarrow> bool) \<Rightarrow> 't select_context \<Rightarrow> ref \<Rightarrow> ('t, 'v) diff_calculator" where
  "DiffCalculator registry q observableResults =
     \<lparr>this_evalRegistry = registry, this_query = q,
      this_observableResults = observableResults, this_columns = detectColumns q\<rparr>"

text \<open>
  \<open>comparator_\<close>, on two entry references: the run of \<open>every\<close> over \<open>this.columns_\<close>.  The
  callback looks the evaluator up and applies it, so the second component of the run is
  the list of the columns whose evaluator has been looked up and called.  The value that
  \<open>comparator_\<close> returns is the first component.
\<close>

definition comparator_run ::
  "('t, 'v, 'p) world \<Rightarrow> ref \<Rightarrow> ref \<Rightarrow> bool \<times> 't column list" where
  "comparator_run w left right =
     every_run (\<lambda>c. let evalFn = this_evalRegistry (this w) (getType c) EQ
                    in evalFn (getField (objects w left) c) (getField (objects w right) c))
       (this_columns (this w))"

definition comparator :: "('t, 'v, 'p) world \<Rightarrow> ref \<Rightarrow> ref \<Rightarrow> bool" where
  "comparator w left right = fst (comparator_run w left right)"

text \<open>
  The first loop of \<open>applyDiff\<close>.  Reading \<open>lcs[commonIndex]\<close> past the end gives
  \<open>undefined\<close>, which is \<open>==\<close> to no entry.  The index \<open>i\<close> advances on both branches.
\<close>

function applyDiff_deletions ::
  "ref list \<Rightarrow> ref list \<Rightarrow> nat \<Rightarrow> nat \<Rightarrow> ('t, 'v, 'p) world \<Rightarrow> ('t, 'v, 'p) world" where
  "applyDiff_deletions oldEntries lcsLeft i commonIndex w =
     (if i < length oldEntries then
        (if commonIndex < length lcsLeft \<and> lcsLeft ! commonIndex = oldEntries ! i
         then applyDiff_deletions oldEntries lcsLeft (i + 1) (commonIndex + 1) w
         else applyDiff_deletions oldEntries lcsLeft (i + 1) commonIndex
                (splice (this_observableResults (this w)) i 1 [] w))
      else w)"
  by pat_completeness auto
termination
  by (relation "measure (\<lambda>(oldEntries, lcsLeft, i, commonIndex, w). length oldEntries - i)") auto

text \<open>The second loop.\<close>

function applyDiff_additions ::
  "ref list \<Rightarrow> ref list \<Rightarrow> nat \<Rightarrow> nat \<Rightarrow> ('t, 'v, 'p) world \<Rightarrow> ('t, 'v, 'p) world" where
  "applyDiff_additions newEntries lcsRight i commonIndex w =
     (if i < length newEntries then
        (if commonIndex < length lcsRight \<and> lcsRight ! commonIndex = newEntries ! i
         then applyDiff_additions newEntries lcsRight (i + 1) (commonIndex + 1) w
         else applyDiff_additions newEntries lcsRight (i + 1) commonIndex
                (splice (this_observableResults (this w)) i 0
                   [row_payload (objects w (newEntries ! i))] w))
      else w)"
  by pat_completeness auto
termination
  by (relation "measure (\<lambda>(newEntries, lcsRight, i, commonIndex, w). length newEntries - i)") auto

text \<open>\<open>goog.isNull(oldResults) ? [] : oldResults.entries\<close>\<close>

definition oldEntries_of :: "relation option \<Rightarrow> ref list" where
  "oldEntries_of oldResults = (case oldResults of None \<Rightarrow> [] | Some r \<Rightarrow> entries r)"

text \<open>The two calls of the engine: same sequences, same comparator, another collector.\<close>

definition longestCommonSubsequenceLeft ::
  "('t, 'v, 'p) world \<Rightarrow> ref list \<Rightarrow> ref list \<Rightarrow> ref list" where
  "longestCommonSubsequenceLeft w oldEntries newEntries =
     longestCommonSubsequence oldEntries newEntries (comparator w)
       (\<lambda>indexLeft indexRight. oldEntries ! indexLeft)"

definition longestCommonSubsequenceRight ::
  "('t, 'v, 'p) world \<Rightarrow> ref list \<Rightarrow> ref list \<Rightarrow> ref list" where
  "longestCommonSubsequenceRight w oldEntries newEntries =
     longestCommonSubsequence oldEntries newEntries (comparator w)
       (\<lambda>indexLeft indexRight. newEntries ! indexRight)"

definition applyDiff ::
  "relation option \<Rightarrow> relation \<Rightarrow> ('t, 'v, 'p) world \<Rightarrow> ('t, 'v, 'p) world" where
  "applyDiff oldResults newResults w =
     (let oldEntries = oldEntries_of oldResults;
          lcsLeft = longestCommonSubsequenceLeft w oldEntries (entries newResults);
          w1 = applyDiff_deletions oldEntries lcsLeft 0 0 w;
          lcsRight = longestCommonSubsequenceRight w1 oldEntries (entries newResults)
      in applyDiff_additions (entries newResults) lcsRight 0 0 w1)"

section \<open>The patch as a list of edits\<close>

text \<open>
  The two passes as the specification words them (section 4.4): a walk over the entries
  by index \<open>i\<close> with a cursor \<open>c\<close> into the kept entries, giving one edit for every
  entry that is not the kept entry under the cursor.
\<close>

datatype 'p edit = Remove nat | Insert nat 'p

fun remove_at :: "nat \<Rightarrow> 'a list \<Rightarrow> 'a list" where
  "remove_at n [] = []"
| "remove_at 0 (x # xs) = xs"
| "remove_at (Suc n) (x # xs) = x # remove_at n xs"

fun insert_at :: "nat \<Rightarrow> 'a \<Rightarrow> 'a list \<Rightarrow> 'a list" where
  "insert_at 0 y xs = y # xs"
| "insert_at (Suc n) y [] = [y]"
| "insert_at (Suc n) y (x # xs) = x # insert_at n y xs"

fun apply_edit :: "'p list \<Rightarrow> 'p edit \<Rightarrow> 'p list" where
  "apply_edit xs (Remove n) = remove_at n xs"
| "apply_edit xs (Insert n y) = insert_at n y xs"

text \<open>Whether every insertion of a list of edits meets the array at or before its end.\<close>

fun inserts_in_range :: "'p list \<Rightarrow> 'p edit list \<Rightarrow> bool" where
  "inserts_in_range xs [] = True"
| "inserts_in_range xs (Remove n # es) = inserts_in_range (remove_at n xs) es"
| "inserts_in_range xs (Insert n y # es) = (n \<le> length xs \<and> inserts_in_range (insert_at n y xs) es)"

fun deletion_steps :: "ref list \<Rightarrow> ref list \<Rightarrow> nat \<Rightarrow> nat \<Rightarrow> 'p edit list" where
  "deletion_steps [] keepOld i c = []"
| "deletion_steps (e # es) keepOld i c =
     (if c < length keepOld \<and> keepOld ! c = e
      then deletion_steps es keepOld (Suc i) (Suc c)
      else Remove i # deletion_steps es keepOld (Suc i) c)"

fun insertion_steps :: "(ref \<Rightarrow> 'p) \<Rightarrow> ref list \<Rightarrow> ref list \<Rightarrow> nat \<Rightarrow> nat \<Rightarrow> 'p edit list" where
  "insertion_steps pay [] keepNew i c = []"
| "insertion_steps pay (e # es) keepNew i c =
     (if c < length keepNew \<and> keepNew ! c = e
      then insertion_steps pay es keepNew (Suc i) (Suc c)
      else Insert i (pay e) # insertion_steps pay es keepNew (Suc i) c)"

text \<open>The splice call that carries out an edit on the array \<open>a\<close>, without what it removed.\<close>

fun edit_call :: "ref \<Rightarrow> 'p edit \<Rightarrow> ref \<times> nat \<times> nat \<times> 'p list" where
  "edit_call a (Remove n) = (a, n, 1, [])"
| "edit_call a (Insert n y) = (a, n, 0, [y])"

definition call_shape :: "'p splice_call \<Rightarrow> ref \<times> nat \<times> nat \<times> 'p list" where
  "call_shape s = (target s, start s, deleteCount s, items s)"

text \<open>A call that takes out at most one element and puts none in, or puts one in.\<close>

definition single_element :: "'p splice_call \<Rightarrow> bool" where
  "single_element s \<longleftrightarrow>
     deleteCount s = 1 \<and> items s = [] \<and> length (removed s) \<le> 1 \<or>
     deleteCount s = 0 \<and> length (items s) = 1 \<and> removed s = []"

definition replay :: "'p list \<Rightarrow> 'p splice_call \<Rightarrow> 'p list" where
  "replay xs s = splice_array (start s) (deleteCount s) (items s) xs"

definition patched :: "('t, 'v, 'p) world \<Rightarrow> ('t, 'v, 'p) world \<Rightarrow> 'p edit list \<Rightarrow> bool" where
  "patched w w' es \<longleftrightarrow>
     this w' = this w \<and> objects w' = objects w \<and>
     arrays w' = (arrays w)(this_observableResults (this w) :=
       foldl apply_edit (arrays w (this_observableResults (this w))) es) \<and>
     (\<exists>calls. splices w' = splices w @ calls \<and>
        map call_shape calls = map (edit_call (this_observableResults (this w))) es \<and>
        list_all single_element calls \<and>
        foldl replay (arrays w (this_observableResults (this w))) calls =
          arrays w' (this_observableResults (this w)))"

text \<open>The edits of one call: the removals of the first pass, then the insertions of the second.\<close>

definition two_pass_steps ::
  "('t, 'v, 'p) world \<Rightarrow> relation option \<Rightarrow> relation \<Rightarrow> 'p edit list" where
  "two_pass_steps w oldResults newResults =
     deletion_steps (oldEntries_of oldResults)
       (longestCommonSubsequenceLeft w (oldEntries_of oldResults) (entries newResults)) 0 0 @
     insertion_steps (\<lambda>r. row_payload (objects w r)) (entries newResults)
       (longestCommonSubsequenceRight w (oldEntries_of oldResults) (entries newResults)) 0 0"

section \<open>Example stores\<close>

text \<open>
  A calculator for a query that projects the column \<open>id\<close>, observing array 0.  The entry
  at address \<open>r\<close> is a row with id \<open>r mod 10\<close> and payload \<open>100 + r mod 10\<close>, so that
  the addresses 3 and 13 are two instances of row 3; the registry compares integers.
\<close>

definition id_column :: "string column" where
  "id_column = \<lparr>getName = ''id'', getType = ''integer''\<rparr>"

definition integer_registry :: "string \<Rightarrow> eval_type \<Rightarrow> int \<Rightarrow> int \<Rightarrow> bool" where
  "integer_registry t k a b = (case k of EQ \<Rightarrow> a = b | NotEQ \<Rightarrow> a \<noteq> b)"

definition rows_by_id :: "int list \<Rightarrow> (string, int, int) world" where
  "rows_by_id observed =
     \<lparr>this = DiffCalculator integer_registry
               \<lparr>columns = [id_column], from_tables = [], innerJoin = None\<rparr> 0,
      objects = (\<lambda>r. \<lparr>getField = (\<lambda>c. int (r mod 10)), row_payload = 100 + int (r mod 10)\<rparr>),
      arrays = (\<lambda>a. if a = 0 then observed else []),
      splices = []\<rparr>"

text \<open>
  Numbers with JavaScript's \<open>NaN\<close>, which \<open>==\<close> makes equal to nothing, itself
  included; a registry that compares with \<open>==\<close>; and a store whose entries all carry
  \<open>NaN\<close> in the projected column.
\<close>

datatype number = Number int | NaN

definition number_registry :: "string \<Rightarrow> eval_type \<Rightarrow> number \<Rightarrow> number \<Rightarrow> bool" where
  "number_registry t k a b =
     (case k of EQ \<Rightarrow> a \<noteq> NaN \<and> b \<noteq> NaN \<and> a = b
              | NotEQ \<Rightarrow> a = NaN \<or> b = NaN \<or> a \<noteq> b)"

definition rows_of_nan :: "int list \<Rightarrow> (string, number, int) world" where
  "rows_of_nan observed =
     \<lparr>this = DiffCalculator number_registry
               \<lparr>columns = [\<lparr>getName = ''price'', getType = ''number''\<rparr>],
                from_tables = [], innerJoin = None\<rparr> 0,
      objects = (\<lambda>r. \<lparr>getField = (\<lambda>c. NaN), row_payload = 100 + int r\<rparr>),
      arrays = (\<lambda>a. if a = 0 then observed else []),
      splices = []\<rparr>"

text \<open>A select-all query over one table that exposes no column.\<close>

definition rows_without_columns :: "int list \<Rightarrow> (string, int, int) world" where
  "rows_without_columns observed =
     \<lparr>this = DiffCalculator integer_registry
               \<lparr>columns = [], from_tables = [\<lparr>getColumns = []\<rparr>], innerJoin = None\<rparr> 0,
      objects = (\<lambda>r. \<lparr>getField = (\<lambda>c. int r), row_payload = 100 + int r\<rparr>),
      arrays = (\<lambda>a. if a = 0 then observed else []),
      splices = []\<rparr>"

text \<open>
  A query that projects the columns \<open>a\<close>, \<open>b\<close>, \<open>c\<close> of rows that also have a column
  \<open>d\<close>.  Entry 1 has the fields 1, 2, 3, 4 and the payload 10.  Entry 2 agrees with it in
  \<open>a\<close> and differs in \<open>b\<close> and \<open>c\<close>.  Entry 3 agrees with entry 1 in the three projected
  columns and differs in \<open>d\<close> and in the payload.
\<close>

definition column_a :: "string column" where
  "column_a = \<lparr>getName = ''a'', getType = ''integer''\<rparr>"

definition column_b :: "string column" where
  "column_b = \<lparr>getName = ''b'', getType = ''integer''\<rparr>"

definition column_c :: "string column" where
  "column_c = \<lparr>getName = ''c'', getType = ''integer''\<rparr>"

definition column_d :: "string column" where
  "column_d = \<lparr>getName = ''d'', getType = ''integer''\<rparr>"

definition rows_with_four_columns :: "(string, int, int) world" where
  "rows_with_four_columns =
     \<lparr>this = DiffCalculator integer_registry
               \<lparr>columns = [column_a, column_b, column_c], from_tables = [], innerJoin = None\<rparr> 0,
      objects = (\<lambda>r.
        \<lparr>getField = (\<lambda>c.
           if getName c = ''a'' then 1
           else if getName c = ''b'' then (if r = 2 then 5 else 2)
           else if getName c = ''c'' then (if r = 2 then 6 else 3)
           else (if r = 3 then 99 else 4)),
         row_payload = (if r = 3 then 77 else 10)\<rparr>),
      arrays = (\<lambda>a. []),
      splices = []\<rparr>"

declare applyDiff_deletions.simps [simp del]
declare applyDiff_additions.simps [simp del]

section \<open>Frame facts\<close>

lemma every_Nil [simp]: "every f [] = True"
  by (simp add: every_def)

lemma every_Cons [simp]: "every f (x # xs) = (if f x then every f xs else False)"
  by (simp add: every_def)

lemma comparator_every:
  "comparator w left right =
     every (\<lambda>c. this_evalRegistry (this w) (getType c) EQ
                  (getField (objects w left) c) (getField (objects w right) c))
       (this_columns (this w))"
  by (simp add: comparator_def comparator_run_def every_def Let_def)

lemma splice_this [simp]: "this (splice a s d its w) = this w"
  by (simp add: splice_def)

lemma splice_objects [simp]: "objects (splice a s d its w) = objects w"
  by (simp add: splice_def)

lemma splice_arrays:
  "arrays (splice a s d its w) b = (if b = a then splice_array s d its (arrays w a) else arrays w b)"
  by (simp add: splice_def)

lemma splice_splices:
  "splices (splice a s d its w) =
     splices w @ [\<lparr>target = a, start = s, deleteCount = d,
                   removed = splice_removed s d (arrays w a), items = its\<rparr>]"
  by (simp add: splice_def)

lemma comparator_cong:
  "this w' = this w \<Longrightarrow> objects w' = objects w \<Longrightarrow> comparator w' = comparator w"
  by (intro ext) (simp add: comparator_every)

lemma deletions_frame:
  "this (applyDiff_deletions old keep i c w) = this w \<and>
   objects (applyDiff_deletions old keep i c w) = objects w"
proof (induction old keep i c w rule: applyDiff_deletions.induct)
  case (1 old keep i c w)
  show ?case
    using "1.IH" by (subst (1 2) applyDiff_deletions.simps) simp
qed

lemma additions_frame:
  "this (applyDiff_additions new keep i c w) = this w \<and>
   objects (applyDiff_additions new keep i c w) = objects w"
proof (induction new keep i c w rule: applyDiff_additions.induct)
  case (1 new keep i c w)
  show ?case
    using "1.IH" by (subst (1 2) applyDiff_additions.simps) simp
qed

lemma deletions_all_match:
  "drop i old = drop c keep \<Longrightarrow> applyDiff_deletions old keep i c w = w"
proof (induction old keep i c w rule: applyDiff_deletions.induct)
  case (1 old keep i c w)
  show ?case
  proof (cases "i < length old")
    case False
    then show ?thesis by (subst applyDiff_deletions.simps) simp
  next
    case True
    then have d: "drop i old = old ! i # drop (Suc i) old"
      by (simp add: Cons_nth_drop_Suc)
    with "1.prems" have ne: "drop c keep \<noteq> []" by (metis list.distinct(1))
    then have c: "c < length keep" by simp
    then have k: "drop c keep = keep ! c # drop (Suc c) keep"
      by (simp add: Cons_nth_drop_Suc)
    from d k "1.prems" have hd: "keep ! c = old ! i" and tl: "drop (Suc i) old = drop (Suc c) keep"
      by simp_all
    from "1.IH"(1) [OF True] c hd tl
    have "applyDiff_deletions old keep (i + 1) (c + 1) w = w" by simp
    with True c hd show ?thesis by (subst applyDiff_deletions.simps) simp
  qed
qed

lemma additions_all_match:
  "drop i new = drop c keep \<Longrightarrow> applyDiff_additions new keep i c w = w"
proof (induction new keep i c w rule: applyDiff_additions.induct)
  case (1 new keep i c w)
  show ?case
  proof (cases "i < length new")
    case False
    then show ?thesis by (subst applyDiff_additions.simps) simp
  next
    case True
    then have d: "drop i new = new ! i # drop (Suc i) new"
      by (simp add: Cons_nth_drop_Suc)
    with "1.prems" have ne: "drop c keep \<noteq> []" by (metis list.distinct(1))
    then have c: "c < length keep" by simp
    then have k: "drop c keep = keep ! c # drop (Suc c) keep"
      by (simp add: Cons_nth_drop_Suc)
    from d k "1.prems" have hd: "keep ! c = new ! i" and tl: "drop (Suc i) new = drop (Suc c) keep"
      by simp_all
    from "1.IH"(1) [OF True] c hd tl
    have "applyDiff_additions new keep (i + 1) (c + 1) w = w" by simp
    with True c hd show ?thesis by (subst applyDiff_additions.simps) simp
  qed
qed

section \<open>Facts about the engine\<close>

lemma lcs_backtrack_acc:
  "lcs_backtrack eq A B collect i j acc = lcs_backtrack eq A B collect i j [] @ acc"
proof (induction eq A B i j arbitrary: acc rule: lcs_table.induct)
  case (3 eq A B i j)
  show ?case
  proof (cases "eq (A ! i) (B ! j)")
    case True
    from "3.IH"(1) [OF True, of "collect i j # acc"] "3.IH"(1) [OF True, of "[collect i j]"] True
    show ?thesis by simp
  next
    case False
    from "3.IH"(2) [OF False, of acc] "3.IH"(3) [OF False, of acc] False
    show ?thesis by simp
  qed
qed simp_all

lemma lcs_backtrack_collect:
  "lcs_backtrack eq A B collect i j [] =
     map (\<lambda>(a, b). collect a b) (lcs_backtrack eq A B Pair i j [])"
proof (induction eq A B i j rule: lcs_table.induct)
  case (3 eq A B i j)
  show ?case
  proof (cases "eq (A ! i) (B ! j)")
    case True
    have "lcs_backtrack eq A B collect (Suc i) (Suc j) [] =
          lcs_backtrack eq A B collect i j [] @ [collect i j]"
      using True lcs_backtrack_acc [of eq A B collect i j "[collect i j]"] by simp
    moreover have "lcs_backtrack eq A B Pair (Suc i) (Suc j) [] =
          lcs_backtrack eq A B Pair i j [] @ [(i, j)]"
      using True lcs_backtrack_acc [of eq A B Pair i j "[(i, j)]"] by simp
    ultimately show ?thesis using "3.IH"(1) [OF True] by simp
  next
    case False
    with "3.IH"(2,3) [OF False] show ?thesis by simp
  qed
qed simp_all

lemma lcs_pairs_sound:
  "(a, b) \<in> set (lcs_backtrack eq A B Pair i j []) \<Longrightarrow> a < i \<and> b < j \<and> eq (A ! a) (B ! b)"
proof (induction eq A B i j rule: lcs_table.induct)
  case (3 eq A B i j)
  show ?case
  proof (cases "eq (A ! i) (B ! j)")
    case True
    have "lcs_backtrack eq A B Pair (Suc i) (Suc j) [] =
          lcs_backtrack eq A B Pair i j [] @ [(i, j)]"
      using True lcs_backtrack_acc [of eq A B Pair i j "[(i, j)]"] by simp
    with "3.prems" have "(a, b) \<in> set (lcs_backtrack eq A B Pair i j []) \<or> (a, b) = (i, j)"
      by auto
    then show ?thesis
      using "3.IH"(1) [OF True] True by auto
  next
    case False
    show ?thesis
    proof (cases "lcs_table eq A B (Suc i) j \<le> lcs_table eq A B i (Suc j)")
      case True
      with False "3.prems" have "(a, b) \<in> set (lcs_backtrack eq A B Pair i (Suc j) [])" by simp
      with "3.IH"(2) [OF False] show ?thesis by auto
    next
      case up: False
      with False "3.prems" have "(a, b) \<in> set (lcs_backtrack eq A B Pair (Suc i) j [])" by simp
      with "3.IH"(3) [OF False] show ?thesis by auto
    qed
  qed
qed simp_all

lemma lcs_pairs_increasing:
  "sorted_wrt (\<lambda>p q. fst p < fst q \<and> snd p < snd q) (lcs_backtrack eq A B Pair i j [])"
proof (induction eq A B i j rule: lcs_table.induct)
  case (3 eq A B i j)
  show ?case
  proof (cases "eq (A ! i) (B ! j)")
    case True
    have "lcs_backtrack eq A B Pair (Suc i) (Suc j) [] =
          lcs_backtrack eq A B Pair i j [] @ [(i, j)]"
      using True lcs_backtrack_acc [of eq A B Pair i j "[(i, j)]"] by simp
    then show ?thesis
      using "3.IH"(1) [OF True] lcs_pairs_sound [of _ _ eq A B i j]
      by (auto simp: sorted_wrt_append)
  next
    case False
    with "3.IH"(2,3) [OF False] show ?thesis by simp
  qed
qed simp_all

lemma lcs_left_subseq:
  "i \<le> length A \<Longrightarrow>
   subseq (map (\<lambda>(a, b). A ! a) (lcs_backtrack eq A B Pair i j [])) (take i A)"
proof (induction eq A B i j rule: lcs_table.induct)
  case (3 eq A B i j)
  from "3.prems" have i: "i < length A" by simp
  then have tk: "take (Suc i) A = take i A @ [A ! i]"
    by (simp add: take_Suc_conv_app_nth)
  show ?case
  proof (cases "eq (A ! i) (B ! j)")
    case True
    have "lcs_backtrack eq A B Pair (Suc i) (Suc j) [] =
          lcs_backtrack eq A B Pair i j [] @ [(i, j)]"
      using True lcs_backtrack_acc [of eq A B Pair i j "[(i, j)]"] by simp
    then show ?thesis
      using "3.IH"(1) [OF True] i tk by (simp add: list_emb_append_mono)
  next
    case False
    show ?thesis
    proof (cases "lcs_table eq A B (Suc i) j \<le> lcs_table eq A B i (Suc j)")
      case True
      with False "3.IH"(2) [OF False] i
      have "subseq (map (\<lambda>(a, b). A ! a) (lcs_backtrack eq A B Pair (Suc i) (Suc j) [])) (take i A)"
        by simp
      then show ?thesis unfolding tk by (rule subseq_rev_drop_many)
    next
      case up: False
      with False "3.IH"(3) [OF False] "3.prems" show ?thesis by simp
    qed
  qed
qed simp_all

lemma lcs_right_subseq:
  "j \<le> length B \<Longrightarrow>
   subseq (map (\<lambda>(a, b). B ! b) (lcs_backtrack eq A B Pair i j [])) (take j B)"
proof (induction eq A B i j rule: lcs_table.induct)
  case (3 eq A B i j)
  from "3.prems" have j: "j < length B" by simp
  then have tk: "take (Suc j) B = take j B @ [B ! j]"
    by (simp add: take_Suc_conv_app_nth)
  show ?case
  proof (cases "eq (A ! i) (B ! j)")
    case True
    have "lcs_backtrack eq A B Pair (Suc i) (Suc j) [] =
          lcs_backtrack eq A B Pair i j [] @ [(i, j)]"
      using True lcs_backtrack_acc [of eq A B Pair i j "[(i, j)]"] by simp
    then show ?thesis
      using "3.IH"(1) [OF True] j tk by (simp add: list_emb_append_mono)
  next
    case False
    show ?thesis
    proof (cases "lcs_table eq A B (Suc i) j \<le> lcs_table eq A B i (Suc j)")
      case True
      with False "3.IH"(2) [OF False] "3.prems" show ?thesis by simp
    next
      case up: False
      with False "3.IH"(3) [OF False] j
      have "subseq (map (\<lambda>(a, b). B ! b) (lcs_backtrack eq A B Pair (Suc i) (Suc j) [])) (take j B)"
        by simp
      then show ?thesis unfolding tk by (rule subseq_rev_drop_many)
    qed
  qed
qed simp_all

lemma lcs_backtrack_diagonal:
  "(\<And>k. k < n \<Longrightarrow> eq (A ! k) (B ! k)) \<Longrightarrow>
   lcs_backtrack eq A B collect n n [] = map (\<lambda>k. collect k k) [0..<n]"
proof (induction n)
  case (Suc n)
  have "lcs_backtrack eq A B collect (Suc n) (Suc n) [] =
        lcs_backtrack eq A B collect n n [] @ [collect n n]"
    using Suc.prems [of n] lcs_backtrack_acc [of eq A B collect n n "[collect n n]"] by simp
  with Suc.IH Suc.prems show ?case by simp
qed simp


text \<open>The engine returns a longest common subsequence: none is longer.\<close>

lemma lcs_backtrack_length:
  "length (lcs_backtrack eq A B collect i j []) = lcs_table eq A B i j"
proof (induction eq A B i j rule: lcs_table.induct)
  case (3 eq A B i j)
  show ?case
  proof (cases "eq (A ! i) (B ! j)")
    case True
    have "lcs_backtrack eq A B collect (Suc i) (Suc j) [] =
          lcs_backtrack eq A B collect i j [] @ [collect i j]"
      using True lcs_backtrack_acc [of eq A B collect i j "[collect i j]"] by simp
    with "3.IH"(1) [OF True] True show ?thesis by simp
  next
    case False
    with "3.IH"(2,3) [OF False] show ?thesis by (simp add: max_def)
  qed
qed simp_all

lemma common_subsequence_shrink:
  assumes "common_subsequence eq A B i j (ps @ [(a, b)])"
  shows "common_subsequence eq A B a b ps"
  using assms by (auto simp: common_subsequence_def sorted_wrt_append list_all_iff)

lemma common_subsequence_mono:
  "common_subsequence eq A B i j ps \<Longrightarrow> i \<le> i' \<Longrightarrow> j \<le> j' \<Longrightarrow>
   common_subsequence eq A B i' j' ps"
  by (auto simp: common_subsequence_def list_all_iff)

lemma common_subsequence_narrow_left:
  assumes "common_subsequence eq A B i j (ps @ [(a, b)])" and "a < i'"
  shows "common_subsequence eq A B i' j (ps @ [(a, b)])"
  using assms by (auto simp: common_subsequence_def sorted_wrt_append list_all_iff)

lemma common_subsequence_narrow_up:
  assumes "common_subsequence eq A B i j (ps @ [(a, b)])" and "b < j'"
  shows "common_subsequence eq A B i j' (ps @ [(a, b)])"
  using assms by (auto simp: common_subsequence_def sorted_wrt_append list_all_iff)

lemma lcs_table_optimal:
  "common_subsequence eq A B i j ps \<Longrightarrow> length ps \<le> lcs_table eq A B i j"
proof (induction eq A B i j arbitrary: ps rule: lcs_table.induct)
  case (1 eq A B j)
  then show ?case by (cases ps) (simp_all add: common_subsequence_def)
next
  case (2 eq A B i)
  then show ?case by (cases ps) (simp_all add: common_subsequence_def)
next
  case (3 eq A B i j)
  show ?case
  proof (cases ps rule: rev_cases)
    case Nil
    then show ?thesis by simp
  next
    case (snoc ps' p)
    obtain a b where p: "p = (a, b)" by (cases p)
    from "3.prems" snoc p have last: "a < Suc i" "b < Suc j" "eq (A ! a) (B ! b)"
      by (simp_all add: common_subsequence_def)
    from "3.prems" snoc p have all: "common_subsequence eq A B (Suc i) (Suc j) (ps' @ [(a, b)])"
      by simp
    show ?thesis
    proof (cases "eq (A ! i) (B ! j)")
      case True
      from common_subsequence_shrink [OF all] last
      have "common_subsequence eq A B i j ps'"
        by (auto intro: common_subsequence_mono)
      from "3.IH"(1) [OF True this] True snoc show ?thesis by simp
    next
      case False
      with last have "a < i \<or> b < j"
        by (metis less_SucE)
      then show ?thesis
      proof
        assume "a < i"
        from common_subsequence_narrow_left [OF all this]
        have "common_subsequence eq A B i (Suc j) ps" using snoc p by simp
        from "3.IH"(2) [OF False this] False show ?thesis by simp
      next
        assume "b < j"
        from common_subsequence_narrow_up [OF all this]
        have "common_subsequence eq A B (Suc i) j ps" using snoc p by simp
        from "3.IH"(3) [OF False this] False show ?thesis by simp
      qed
    qed
  qed
qed

lemma lcs_pairs_common:
  "common_subsequence eq A B i j (lcs_backtrack eq A B Pair i j [])"
  unfolding common_subsequence_def list_all_iff
  using lcs_pairs_increasing [of eq A B i j] lcs_pairs_sound [of _ _ eq A B i j]
  by auto

lemma longestCommonSubsequence_longest:
  "common_subsequence eq A B (length A) (length B) (longestCommonSubsequence A B eq Pair) \<and>
   (common_subsequence eq A B (length A) (length B) ps \<longrightarrow>
      length ps \<le> length (longestCommonSubsequence A B eq collect))"
  using lcs_pairs_common [of eq A B "length A" "length B"]
    lcs_table_optimal [of eq A B "length A" "length B" ps]
    lcs_backtrack_length [of eq A B collect "length A" "length B"]
  by (simp add: longestCommonSubsequence_def)

section \<open>The loops carry out the edits\<close>

lemma splice_remove_at: "splice_array n (Suc 0) [] xs = remove_at n xs"
  by (induction n xs rule: remove_at.induct) (simp_all add: splice_array_def)

lemma splice_insert_at: "splice_array n 0 [y] xs = insert_at n y xs"
  by (induction n y xs rule: insert_at.induct) (simp_all add: splice_array_def)

lemma patched_refl: "patched w w []"
  by (simp add: patched_def)

lemma patched_remove:
  "patched w (splice (this_observableResults (this w)) n 1 [] w) [Remove n]"
  by (simp add: patched_def splice_def call_shape_def single_element_def replay_def
      splice_remove_at splice_removed_def)

lemma patched_insert:
  "patched w (splice (this_observableResults (this w)) n 0 [y] w) [Insert n y]"
  by (simp add: patched_def splice_def call_shape_def single_element_def replay_def
      splice_insert_at splice_removed_def)

lemma patched_trans:
  assumes "patched w w' es" and "patched w' w'' es'"
  shows "patched w w'' (es @ es')"
proof -
  let ?a = "this_observableResults (this w)"
  from assms(1) obtain calls where
    t1: "this w' = this w" and o1: "objects w' = objects w" and
    a1: "arrays w' = (arrays w)(?a := foldl apply_edit (arrays w ?a) es)" and
    s1: "splices w' = splices w @ calls" and
    c1: "map call_shape calls = map (edit_call ?a) es" and
    e1: "list_all single_element calls" and
    r1: "foldl replay (arrays w ?a) calls = arrays w' ?a"
    unfolding patched_def by blast
  from assms(2) t1 obtain calls' where
    t2: "this w'' = this w'" and o2: "objects w'' = objects w'" and
    a2: "arrays w'' = (arrays w')(?a := foldl apply_edit (arrays w' ?a) es')" and
    s2: "splices w'' = splices w' @ calls'" and
    c2: "map call_shape calls' = map (edit_call ?a) es'" and
    e2: "list_all single_element calls'" and
    r2: "foldl replay (arrays w' ?a) calls' = arrays w'' ?a"
    unfolding patched_def by auto
  have "arrays w'' = (arrays w)(?a := foldl apply_edit (arrays w ?a) (es @ es'))"
    using a1 a2 by simp
  moreover have "splices w'' = splices w @ (calls @ calls')"
    using s1 s2 by simp
  moreover have "map call_shape (calls @ calls') = map (edit_call ?a) (es @ es')"
    using c1 c2 by simp
  moreover have "list_all single_element (calls @ calls')"
    using e1 e2 by simp
  moreover have "foldl replay (arrays w ?a) (calls @ calls') = arrays w'' ?a"
    using r1 r2 by simp
  ultimately show ?thesis
    unfolding patched_def using t1 t2 o1 o2 by auto
qed

lemma deletions_patched:
  "patched w (applyDiff_deletions old keep i c w) (deletion_steps (drop i old) keep i c)"
proof (induction old keep i c w rule: applyDiff_deletions.induct)
  case (1 old keep i c w)
  show ?case
  proof (cases "i < length old")
    case False
    then show ?thesis
      by (subst applyDiff_deletions.simps) (simp add: patched_refl)
  next
    case True
    then have d: "drop i old = old ! i # drop (Suc i) old"
      by (simp add: Cons_nth_drop_Suc)
    show ?thesis
    proof (cases "c < length keep \<and> keep ! c = old ! i")
      case m: True
      with "1.IH"(1) [OF True] True d show ?thesis
        by (subst applyDiff_deletions.simps) simp
    next
      case m: False
      let ?w = "splice (this_observableResults (this w)) i 1 [] w"
      from "1.IH"(2) [OF True m]
      have "patched ?w (applyDiff_deletions old keep (Suc i) c ?w)
              (deletion_steps (drop (Suc i) old) keep (Suc i) c)" by simp
      from patched_trans [OF patched_remove this]
      have p: "patched w (applyDiff_deletions old keep (Suc i) c ?w)
              (Remove i # deletion_steps (drop (Suc i) old) keep (Suc i) c)" by simp
      have run: "applyDiff_deletions old keep i c w = applyDiff_deletions old keep (Suc i) c ?w"
        by (subst applyDiff_deletions.simps) (simp only: True m if_True if_False Suc_eq_plus1)
      have steps: "deletion_steps (drop i old) keep i c =
          Remove i # deletion_steps (drop (Suc i) old) keep (Suc i) c"
        unfolding d by (simp only: deletion_steps.simps m if_False)
      show ?thesis unfolding run steps by (rule p)
    qed
  qed
qed

lemma additions_patched:
  "patched w (applyDiff_additions new keep i c w)
     (insertion_steps (\<lambda>r. row_payload (objects w r)) (drop i new) keep i c)"
proof (induction new keep i c w rule: applyDiff_additions.induct)
  case (1 new keep i c w)
  show ?case
  proof (cases "i < length new")
    case False
    then show ?thesis
      by (subst applyDiff_additions.simps) (simp add: patched_refl)
  next
    case True
    then have d: "drop i new = new ! i # drop (Suc i) new"
      by (simp add: Cons_nth_drop_Suc)
    show ?thesis
    proof (cases "c < length keep \<and> keep ! c = new ! i")
      case m: True
      with "1.IH"(1) [OF True] True d show ?thesis
        by (subst applyDiff_additions.simps) simp
    next
      case m: False
      let ?y = "row_payload (objects w (new ! i))"
      let ?w = "splice (this_observableResults (this w)) i 0 [?y] w"
      from "1.IH"(2) [OF True m]
      have "patched ?w (applyDiff_additions new keep (Suc i) c ?w)
              (insertion_steps (\<lambda>r. row_payload (objects w r)) (drop (Suc i) new) keep (Suc i) c)"
        by simp
      from patched_trans [OF patched_insert this]
      have p: "patched w (applyDiff_additions new keep (Suc i) c ?w)
              (Insert i ?y # insertion_steps (\<lambda>r. row_payload (objects w r)) (drop (Suc i) new) keep (Suc i) c)"
        by simp
      have run: "applyDiff_additions new keep i c w = applyDiff_additions new keep (Suc i) c ?w"
        by (subst applyDiff_additions.simps) (simp only: True m if_True if_False Suc_eq_plus1)
      have steps: "insertion_steps (\<lambda>r. row_payload (objects w r)) (drop i new) keep i c =
          Insert i ?y # insertion_steps (\<lambda>r. row_payload (objects w r)) (drop (Suc i) new) keep (Suc i) c"
        unfolding d by (simp only: insertion_steps.simps m if_False)
      show ?thesis unfolding run steps by (rule p)
    qed
  qed
qed



section \<open>Facts about the edits\<close>

lemma remove_at_inside:
  "n < length xs \<Longrightarrow> remove_at n xs = take n xs @ drop (Suc n) xs \<and> Suc (length (remove_at n xs)) = length xs"
  by (induction n xs rule: remove_at.induct) simp_all

lemma remove_at_outside: "length xs \<le> n \<Longrightarrow> remove_at n xs = xs"
  by (induction n xs rule: remove_at.induct) simp_all

lemma insert_at_inside:
  "n \<le> length xs \<Longrightarrow> insert_at n y xs = take n xs @ y # drop n xs"
  by (induction n y xs rule: insert_at.induct) simp_all

lemma insert_at_end: "insert_at (length xs) y xs = xs @ [y]"
  by (simp add: insert_at_inside)

section \<open>One call as a whole\<close>

lemma lcsRight_frame:
  "this w' = this w \<Longrightarrow> objects w' = objects w \<Longrightarrow>
   longestCommonSubsequenceRight w' old new = longestCommonSubsequenceRight w old new"
  using comparator_cong [of w' w] by (simp add: longestCommonSubsequenceRight_def)

lemma applyDiff_patched:
  "patched w (applyDiff oldResults newResults w) (two_pass_steps w oldResults newResults)"
proof -
  let ?old = "oldEntries_of oldResults"
  let ?new = "entries newResults"
  let ?w1 = "applyDiff_deletions ?old (longestCommonSubsequenceLeft w ?old ?new) 0 0 w"
  have f: "this ?w1 = this w" "objects ?w1 = objects w"
    using deletions_frame [of ?old "longestCommonSubsequenceLeft w ?old ?new" 0 0 w] by simp_all
  have p1: "patched w ?w1
      (deletion_steps ?old (longestCommonSubsequenceLeft w ?old ?new) 0 0)"
    using deletions_patched [of w ?old "longestCommonSubsequenceLeft w ?old ?new" 0 0] by simp
  have p2: "patched ?w1
      (applyDiff_additions ?new (longestCommonSubsequenceRight w ?old ?new) 0 0 ?w1)
      (insertion_steps (\<lambda>r. row_payload (objects w r)) ?new
         (longestCommonSubsequenceRight w ?old ?new) 0 0)"
    using additions_patched [of ?w1 ?new "longestCommonSubsequenceRight w ?old ?new" 0 0] f
    by simp
  have "applyDiff oldResults newResults w =
      applyDiff_additions ?new (longestCommonSubsequenceRight w ?old ?new) 0 0 ?w1"
    by (simp add: applyDiff_def Let_def lcsRight_frame [OF f])
  then show ?thesis
    unfolding two_pass_steps_def using patched_trans [OF p1 p2] by simp
qed

text \<open>
  The observed array after a call is the array before it with the edits of the two walks
  carried out in order, and the splice calls made are these edits, one call each.
\<close>

lemma applyDiff_carries_out_the_steps:
  "arrays (applyDiff oldResults newResults w) (this_observableResults (this w)) =
     foldl apply_edit (arrays w (this_observableResults (this w)))
       (two_pass_steps w oldResults newResults) \<and>
   map call_shape (drop (length (splices w)) (splices (applyDiff oldResults newResults w))) =
     map (edit_call (this_observableResults (this w))) (two_pass_steps w oldResults newResults)"
  using applyDiff_patched [of w oldResults newResults] unfolding patched_def by auto

lemma applyDiff_diagonal:
  assumes len: "length (entries oldR) = length (entries newR)"
    and eq: "\<And>k. k < length (entries oldR) \<Longrightarrow>
               comparator w (entries oldR ! k) (entries newR ! k)"
  shows "applyDiff (Some oldR) newR w = w"
proof -
  let ?old = "entries oldR" and ?new = "entries newR"
  have l: "longestCommonSubsequenceLeft w ?old ?new = ?old"
    unfolding longestCommonSubsequenceLeft_def longestCommonSubsequence_def len [symmetric]
    using lcs_backtrack_diagonal [of "length ?old" "comparator w" ?old ?new
        "\<lambda>indexLeft indexRight. ?old ! indexLeft"] eq
    by (simp add: map_nth)
  have r: "longestCommonSubsequenceRight w ?old ?new = ?new"
    unfolding longestCommonSubsequenceRight_def longestCommonSubsequence_def len
    using lcs_backtrack_diagonal [of "length ?new" "comparator w" ?old ?new
        "\<lambda>indexLeft indexRight. ?new ! indexRight"] eq len
    by (simp add: map_nth)
  have d: "applyDiff_deletions ?old ?old 0 0 w = w"
    by (rule deletions_all_match) simp
  have a: "applyDiff_additions ?new ?new 0 0 w = w"
    by (rule additions_all_match) simp
  show ?thesis
    by (simp add: applyDiff_def oldEntries_of_def Let_def l r d a)
qed

lemma calls_target:
  "map call_shape calls = map (edit_call a) es \<Longrightarrow> list_all (\<lambda>s. target s = a) calls"
proof (induction calls arbitrary: es)
  case (Cons s calls)
  then obtain e es' where es: "es = e # es'" by (cases es) auto
  with Cons.prems have hd: "call_shape s = edit_call a e"
    and tl: "map call_shape calls = map (edit_call a) es'"
    by simp_all
  from hd have "target s = a"
    by (cases e) (simp_all add: call_shape_def)
  with Cons.IH [OF tl] show ?case by simp
qed simp

section \<open>What the two passes achieve\<close>

text \<open>
  The kept entries are a subsequence of the entries walked, so each pass finds all of
  them: the first pass makes \<open>|old| - |LCS|\<close> removal calls and the second
  \<open>|new| - |LCS|\<close> insertion calls, \<open>|LCS|\<close> being the length of a longest common
  subsequence (\<open>longestCommonSubsequence_longest\<close>).  The insertions always land where
  they should.  The
  removals do as long as there is at most one of them; then the array ends as the payloads
  of the new entries, provided entries that compare equal carry equal payloads (a kept
  element is the payload of the old entry).
\<close>

lemma drop_cursor:
  "drop c keep = e # rest \<Longrightarrow> c < length keep \<and> keep ! c = e \<and> drop (Suc c) keep = rest"
proof -
  assume d: "drop c keep = e # rest"
  then have c: "c < length keep" by (cases "c < length keep") simp_all
  with d show ?thesis by (simp add: Cons_nth_drop_Suc [symmetric])
qed

lemma deletion_steps_done:
  "drop c keep = es \<Longrightarrow> deletion_steps es keep i c = ([] :: 'p edit list)"
proof (induction es arbitrary: i c)
  case (Cons e es)
  from drop_cursor [OF Cons.prems] Cons.IH [of "Suc c" "Suc i"] show ?case by simp
qed simp

lemma subseq_cursor_step:
  assumes "subseq (drop c keep) (e # es)"
  shows "if c < length keep \<and> keep ! c = e then subseq (drop (Suc c) keep) es
         else subseq (drop c keep) es"
proof (cases "c < length keep")
  case True
  then have d: "drop c keep = keep ! c # drop (Suc c) keep"
    by (simp add: Cons_nth_drop_Suc)
  show ?thesis
  proof (cases "keep ! c = e")
    case True
    with assms d \<open>c < length keep\<close> show ?thesis by simp
  next
    case False
    with assms d have "subseq (drop c keep) es"
      by (metis subseq_Cons2_neq)
    with False show ?thesis by simp
  qed
next
  case False
  then show ?thesis by simp
qed

lemma remove_at_append: "remove_at (length pre) (pre @ x # xs) = pre @ xs"
  by (induction pre) simp_all

lemma insert_at_append: "insert_at (length pre) y (pre @ xs) = pre @ y # xs"
  by (induction pre) simp_all

lemma deletion_steps_count:
  "subseq (drop c keep) es \<Longrightarrow>
   length (deletion_steps es keep i c :: 'p edit list) + length (drop c keep) = length es"
proof (induction es arbitrary: i c)
  case (Cons e es)
  show ?case
  proof (cases "c < length keep \<and> keep ! c = e")
    case True
    with subseq_cursor_step [OF Cons.prems] have "subseq (drop (Suc c) keep) es" by simp
    from Cons.IH [OF this, of "Suc i"] True show ?thesis by simp arith
  next
    case False
    with subseq_cursor_step [OF Cons.prems] have "subseq (drop c keep) es" by (simp only: if_False)
    from Cons.IH [OF this, of "Suc i"] False show ?thesis by (simp only: deletion_steps.simps if_False) simp
  qed
qed (auto dest: list_emb_Nil2)

lemma insertion_steps_count:
  "subseq (drop c keep) es \<Longrightarrow>
   length (insertion_steps pay es keep i c) + length (drop c keep) = length es"
proof (induction es arbitrary: i c)
  case (Cons e es)
  show ?case
  proof (cases "c < length keep \<and> keep ! c = e")
    case True
    with subseq_cursor_step [OF Cons.prems] have "subseq (drop (Suc c) keep) es" by simp
    from Cons.IH [OF this, of "Suc i"] True show ?thesis by simp arith
  next
    case False
    with subseq_cursor_step [OF Cons.prems] have "subseq (drop c keep) es" by (simp only: if_False)
    from Cons.IH [OF this, of "Suc i"] False show ?thesis by (simp only: insertion_steps.simps if_False) simp
  qed
qed (auto dest: list_emb_Nil2)

lemma deletion_steps_one_removal:
  "subseq (drop c keep) es \<Longrightarrow> length es \<le> Suc (length (drop c keep)) \<Longrightarrow>
   foldl apply_edit (pre @ map pay es) (deletion_steps es keep (length pre) c) =
     pre @ map pay (drop c keep)"
proof (induction es arbitrary: c pre)
  case Nil
  then show ?case by (auto dest: list_emb_Nil2)
next
  case (Cons e es)
  show ?case
  proof (cases "c < length keep \<and> keep ! c = e")
    case True
    then have d: "drop c keep = e # drop (Suc c) keep"
      by (metis Cons_nth_drop_Suc)
    from subseq_cursor_step [OF Cons.prems(1)] True have s: "subseq (drop (Suc c) keep) es" by simp
    from Cons.prems(2) d have l: "length es \<le> Suc (length (drop (Suc c) keep))" by simp
    from Cons.IH [OF s l, of "pre @ [pay e]"] True d show ?thesis by simp
  next
    case False
    with subseq_cursor_step [OF Cons.prems(1)] have s: "subseq (drop c keep) es"
      by (simp only: if_False)
    from Cons.prems(2) have "length es \<le> length (drop c keep)" by simp
    with s have same: "drop c keep = es"
      by (metis subseq_same_length list_emb_length le_antisym)
    have step: "deletion_steps (e # es) keep (length pre) c =
        (Remove (length pre) # deletion_steps es keep (Suc (length pre)) c :: 'p edit list)"
      using False by (simp only: deletion_steps.simps if_False)
    have rest: "deletion_steps es keep (Suc (length pre)) c = ([] :: 'p edit list)"
      by (rule deletion_steps_done [OF same])
    show ?thesis
      unfolding step rest same by (simp add: remove_at_append)
  qed
qed

lemma insertion_steps_fill:
  "subseq (drop c keep) es \<Longrightarrow>
   foldl apply_edit (pre @ map pay (drop c keep)) (insertion_steps pay es keep (length pre) c) =
     pre @ map pay es"
proof (induction es arbitrary: c pre)
  case Nil
  then show ?case by (auto dest: list_emb_Nil2)
next
  case (Cons e es)
  show ?case
  proof (cases "c < length keep \<and> keep ! c = e")
    case True
    then have d: "drop c keep = e # drop (Suc c) keep"
      by (metis Cons_nth_drop_Suc)
    from subseq_cursor_step [OF Cons.prems(1)] True have s: "subseq (drop (Suc c) keep) es" by simp
    from Cons.IH [OF s, of "pre @ [pay e]"] True d show ?thesis by simp
  next
    case False
    with subseq_cursor_step [OF Cons.prems(1)] have s: "subseq (drop c keep) es"
      by (simp only: if_False)
    have step: "insertion_steps pay (e # es) keep (length pre) c =
        Insert (length pre) (pay e) # insertion_steps pay es keep (Suc (length pre)) c"
      using False by (simp only: insertion_steps.simps if_False)
    show ?thesis
      unfolding step using Cons.IH [OF s, of "pre @ [pay e]"] by (simp add: insert_at_append)
  qed
qed


lemma lcs_left_subseq_all:
  "subseq (longestCommonSubsequenceLeft w old new) old"
  using lcs_left_subseq [of "length old" old "comparator w" new "length new"]
  by (simp add: longestCommonSubsequenceLeft_def longestCommonSubsequence_def
      lcs_backtrack_collect [of _ _ _ "\<lambda>indexLeft indexRight. old ! indexLeft"])

lemma lcs_right_subseq_all:
  "subseq (longestCommonSubsequenceRight w old new) new"
  using lcs_right_subseq [of "length new" new "comparator w" old "length old"]
  by (simp add: longestCommonSubsequenceRight_def longestCommonSubsequence_def
      lcs_backtrack_collect [of _ _ _ "\<lambda>indexLeft indexRight. new ! indexRight"])

lemma lcs_same_length:
  "length (longestCommonSubsequenceLeft w old new) = length (longestCommonSubsequenceRight w old new)"
  by (simp add: longestCommonSubsequenceLeft_def longestCommonSubsequenceRight_def
      longestCommonSubsequence_def
      lcs_backtrack_collect [of _ _ _ "\<lambda>indexLeft indexRight. old ! indexLeft"]
      lcs_backtrack_collect [of _ _ _ "\<lambda>indexLeft indexRight. new ! indexRight"])

lemma removal_and_insertion_calls:
  "length (deletion_steps old (longestCommonSubsequenceLeft w old new) 0 0 :: 'p edit list) =
     length old - length (longestCommonSubsequenceLeft w old new) \<and>
   length (insertion_steps pay new (longestCommonSubsequenceRight w old new) 0 0) =
     length new - length (longestCommonSubsequenceLeft w old new)"
  using deletion_steps_count [of 0 "longestCommonSubsequenceLeft w old new" old 0, where ?'p = 'p]
    insertion_steps_count [of 0 "longestCommonSubsequenceRight w old new" new pay 0]
    lcs_left_subseq_all [of w old new] lcs_right_subseq_all [of w old new]
    lcs_same_length [of w old new]
  by simp arith

lemma kept_payloads_agree:
  assumes agree: "\<And>x y. x \<in> set old \<Longrightarrow> y \<in> set new \<Longrightarrow> comparator w x y \<Longrightarrow> pay x = pay y"
  shows "map pay (longestCommonSubsequenceLeft w old new) =
         map pay (longestCommonSubsequenceRight w old new)"
proof -
  let ?pairs = "lcs_backtrack (comparator w) old new Pair (length old) (length new) []"
  have "pay (old ! a) = pay (new ! b)" if "(a, b) \<in> set ?pairs" for a b
  proof -
    from lcs_pairs_sound [OF that]
    have "a < length old" "b < length new" "comparator w (old ! a) (new ! b)" by simp_all
    then show ?thesis by (intro agree) simp_all
  qed
  then show ?thesis
    by (auto simp: longestCommonSubsequenceLeft_def longestCommonSubsequenceRight_def
        longestCommonSubsequence_def
        lcs_backtrack_collect [of _ _ _ "\<lambda>indexLeft indexRight. old ! indexLeft"]
        lcs_backtrack_collect [of _ _ _ "\<lambda>indexLeft indexRight. new ! indexRight"])
qed

lemma applyDiff_converges_after_one_removal:
  assumes obs: "arrays w (this_observableResults (this w)) =
      map (\<lambda>r. row_payload (objects w r)) (oldEntries_of oldResults)"
    and one: "length (oldEntries_of oldResults) \<le>
      Suc (length (longestCommonSubsequenceLeft w (oldEntries_of oldResults) (entries newResults)))"
    and agree: "\<And>x y. x \<in> set (oldEntries_of oldResults) \<Longrightarrow> y \<in> set (entries newResults) \<Longrightarrow>
      comparator w x y \<Longrightarrow> row_payload (objects w x) = row_payload (objects w y)"
  shows "arrays (applyDiff oldResults newResults w) (this_observableResults (this w)) =
      map (\<lambda>r. row_payload (objects w r)) (entries newResults)"
proof -
  let ?old = "oldEntries_of oldResults" and ?new = "entries newResults"
  let ?pay = "\<lambda>r. row_payload (objects w r)"
  let ?l = "longestCommonSubsequenceLeft w ?old ?new"
  let ?r = "longestCommonSubsequenceRight w ?old ?new"
  have d: "foldl apply_edit (map ?pay ?old) (deletion_steps ?old ?l 0 0) = map ?pay ?l"
    using deletion_steps_one_removal [of 0 ?l ?old "[]" ?pay] lcs_left_subseq_all [of w ?old ?new] one
    by simp
  have k: "map ?pay ?l = map ?pay ?r"
    by (rule kept_payloads_agree) (rule agree)
  have i: "foldl apply_edit (map ?pay ?r) (insertion_steps ?pay ?new ?r 0 0) = map ?pay ?new"
    using insertion_steps_fill [of 0 ?r ?new "[]" ?pay] lcs_right_subseq_all [of w ?old ?new]
    by simp
  have "arrays (applyDiff oldResults newResults w) (this_observableResults (this w)) =
      foldl apply_edit (arrays w (this_observableResults (this w)))
        (two_pass_steps w oldResults newResults)"
    using applyDiff_patched [of w oldResults newResults] unfolding patched_def by simp
  then show ?thesis
    unfolding two_pass_steps_def obs by (simp add: d k i)
qed

text \<open>
  When the observed array holds the old payloads at entry, every insertion of a call is
  aimed at a position inside the array or at its end.
\<close>

lemma length_insert_at: "length (insert_at n y xs) = Suc (length xs)"
  by (induction n y xs rule: insert_at.induct) simp_all

lemma length_remove_at: "length xs \<le> Suc (length (remove_at n xs))"
  by (induction n xs rule: remove_at.induct) simp_all

lemma insertion_steps_in_range:
  "i + length (drop c keep) \<le> length xs \<Longrightarrow>
   inserts_in_range xs (insertion_steps pay es keep i c)"
proof (induction es arbitrary: i c xs)
  case (Cons e es)
  show ?case
  proof (cases "c < length keep \<and> keep ! c = e")
    case True
    with Cons.prems have "Suc i + length (drop (Suc c) keep) \<le> length xs" by simp arith
    from Cons.IH [OF this] True show ?thesis by simp
  next
    case False
    from Cons.prems have "Suc i + length (drop c keep) \<le> length (insert_at i (pay e) xs)"
      by (simp add: length_insert_at)
    from Cons.IH [OF this] have "inserts_in_range (insert_at i (pay e) xs) (insertion_steps pay es keep (Suc i) c)" .
    moreover from Cons.prems have "i \<le> length xs" by simp
    moreover have "insertion_steps pay (e # es) keep i c =
        Insert i (pay e) # insertion_steps pay es keep (Suc i) c"
      using False by (simp only: insertion_steps.simps if_False)
    ultimately show ?thesis by simp
  qed
qed simp

lemma deletion_steps_length:
  "length (xs :: 'p list) \<le> length (foldl apply_edit xs (deletion_steps es keep i c)) +
     length (deletion_steps es keep i c :: 'p edit list)"
proof (induction es arbitrary: i c xs)
  case (Cons e es)
  show ?case
  proof (cases "c < length keep \<and> keep ! c = e")
    case True
    with Cons.IH [of xs "Suc i" "Suc c"] show ?thesis by simp
  next
    case False
    have step: "deletion_steps (e # es) keep i c =
        (Remove i # deletion_steps es keep (Suc i) c :: 'p edit list)"
      using False by (simp only: deletion_steps.simps if_False)
    from Cons.IH [of "remove_at i xs" "Suc i" c] length_remove_at [of xs i]
    show ?thesis unfolding step by simp
  qed
qed simp

lemma insertions_of_a_call_in_range:
  fixes w :: "('t, 'v, 'p) world"
  assumes "arrays w (this_observableResults (this w)) =
      map (\<lambda>r. row_payload (objects w r)) (oldEntries_of oldResults)"
  shows "inserts_in_range
      (foldl apply_edit (arrays w (this_observableResults (this w)))
         (deletion_steps (oldEntries_of oldResults)
            (longestCommonSubsequenceLeft w (oldEntries_of oldResults) (entries newResults)) 0 0))
      (insertion_steps (\<lambda>r. row_payload (objects w r)) (entries newResults)
         (longestCommonSubsequenceRight w (oldEntries_of oldResults) (entries newResults)) 0 0)"
proof -
  let ?old = "oldEntries_of oldResults" and ?new = "entries newResults"
  let ?l = "longestCommonSubsequenceLeft w ?old ?new"
  let ?r = "longestCommonSubsequenceRight w ?old ?new"
  let ?xs = "arrays w (this_observableResults (this w))"
  let ?ds = "deletion_steps ?old ?l 0 0 :: 'p edit list"
  have "length ?ds + length ?l = length ?old"
    using deletion_steps_count [of 0 ?l ?old 0] lcs_left_subseq_all [of w ?old ?new] by simp
  moreover have "length ?xs \<le> length (foldl apply_edit ?xs ?ds) + length ?ds"
    by (rule deletion_steps_length)
  moreover have "length ?xs = length ?old"
    using assms by simp
  ultimately have "length ?r \<le> length (foldl apply_edit ?xs ?ds)"
    using lcs_same_length [of w ?old ?new] by simp
  then show ?thesis
    by (intro insertion_steps_in_range) simp
qed

lemma inserts_in_range_append:
  "inserts_in_range xs (es @ es') \<longleftrightarrow>
     inserts_in_range xs es \<and> inserts_in_range (foldl apply_edit xs es) es'"
proof (induction es arbitrary: xs)
  case (Cons e es)
  then show ?case by (cases e) auto
qed simp

lemma deletion_steps_no_insert:
  "inserts_in_range xs (deletion_steps es keep i c)"
  by (induction es arbitrary: xs i c) simp_all

lemma insertions_inside_the_array:
  "arrays w (this_observableResults (this w)) =
     map (\<lambda>r. row_payload (objects w r)) (oldEntries_of oldResults) \<Longrightarrow>
   inserts_in_range (arrays w (this_observableResults (this w)))
     (two_pass_steps w oldResults newResults)"
  unfolding two_pass_steps_def inserts_in_range_append
  using insertions_of_a_call_in_range [of w oldResults newResults] deletion_steps_no_insert
  by blast

section \<open>Facts about the comparator and the columns\<close>

lemma every_iff: "every f xs \<longleftrightarrow> (\<forall>x \<in> set xs. f x)"
  by (induction xs) simp_all

text \<open>
  The calls of a run: the elements up to the first one that fails, that one included, and
  none behind it.
\<close>

lemma every_run_calls:
  "snd (every_run f xs) = takeWhile f xs @ take 1 (dropWhile f xs)"
  by (induction xs) simp_all

lemma every_run_stops:
  "(\<forall>x \<in> set pre. f x) \<Longrightarrow> \<not> f c \<Longrightarrow> every_run f (pre @ c # post) = (False, pre @ [c])"
  by (induction pre) simp_all

lemma every_run_all:
  "(\<forall>x \<in> set xs. f x) \<Longrightarrow> every_run f xs = (True, xs)"
  by (induction xs) simp_all

lemma every_run_cong:
  "(\<forall>x \<in> set xs. f x = g x) \<Longrightarrow> every_run f xs = every_run g xs"
  by (induction xs) simp_all

lemma push_all: "foldl (\<lambda>cols c. cols @ [c]) acc cs = acc @ cs"
  by (induction cs arbitrary: acc) simp_all

lemma push_all_tables:
  "foldl (\<lambda>cols table. foldl (\<lambda>cols c. cols @ [c]) cols (getColumns table)) acc ts =
     acc @ concat (map getColumns ts)"
  by (induction ts arbitrary: acc) (simp_all add: push_all)

lemma insertions_into_empty_keep:
  "foldl apply_edit pre (insertion_steps pay ns [] (length pre) c) = pre @ map pay ns"
proof (induction ns arbitrary: pre c)
  case (Cons n ns)
  from Cons.IH [of "pre @ [pay n]" c] show ?case
    by (simp add: insert_at_end)
qed simp

lemma lcs_backtrack_all_equal:
  "(\<And>a b. eq a b) \<Longrightarrow> length (lcs_backtrack eq A B collect i j []) = min i j"
proof (induction eq A B i j rule: lcs_table.induct)
  case (3 eq A B i j)
  have e: "eq (A ! i) (B ! j)" by (rule "3.prems")
  have "lcs_backtrack eq A B collect (Suc i) (Suc j) [] =
        lcs_backtrack eq A B collect i j [] @ [collect i j]"
    using e lcs_backtrack_acc [of eq A B collect i j "[collect i j]"] by simp
  moreover have "length (lcs_backtrack eq A B collect i j []) = min i j"
    using e "3.prems" by (rule "3.IH"(1))
  ultimately show ?case by simp
qed simp_all

section \<open>The scenario of the specification\<close>

text \<open>
  The old rows 1, 2, 3 and the new rows 1, 3, 4, as other instances: row 2 is removed at
  position 1, row 4 is inserted at position 2.
\<close>

lemma scenario_one_row_replaced:
  "two_pass_steps (rows_by_id [101, 102, 103]) (Some \<lparr>entries = [1, 2, 3]\<rparr>) \<lparr>entries = [11, 13, 14]\<rparr>
     = [Remove 1, Insert 2 104] \<and>
   arrays (applyDiff (Some \<lparr>entries = [1, 2, 3]\<rparr>) \<lparr>entries = [11, 13, 14]\<rparr>
             (rows_by_id [101, 102, 103])) 0 = [101, 103, 104]"
  by code_simp

section \<open>The claims\<close>

text \<open>
  C1, convergence: after \<open>applyDiff(old, new)\<close> the observed array holds the payloads of
  the new entries, in order.  The code does not achieve it.  The first pass removes at the
  index \<open>i\<close> of the old entry, although every earlier removal has moved the later
  elements one place down.  With the old rows 1, 2, 3 and the new row 3, the array starts
  as the payloads of the old rows; the pass removes position 0 (row 1) and then position
  1, which by then holds row 3, and the array ends as \<open>[102]\<close>, the payload of the
  deleted row 2, where the new result has the payload 103.  (With at most one entry to
  remove the index is still right: \<open>applyDiff_converges_after_one_removal\<close>.)
\<close>

theorem C1_applyDiff_leaves_deleted_row:
  "arrays (rows_by_id [101, 102, 103]) (this_observableResults (this (rows_by_id [101, 102, 103]))) =
     map (\<lambda>r. row_payload (objects (rows_by_id [101, 102, 103]) r)) [1, 2, 3] \<and>
   longestCommonSubsequenceLeft (rows_by_id [101, 102, 103]) [1, 2, 3] [13] = [3] \<and>
   map call_shape (splices (applyDiff (Some \<lparr>entries = [1, 2, 3]\<rparr>) \<lparr>entries = [13]\<rparr>
                              (rows_by_id [101, 102, 103])))
     = [(0, 0, 1, []), (0, 1, 1, [])] \<and>
   arrays (applyDiff (Some \<lparr>entries = [1, 2, 3]\<rparr>) \<lparr>entries = [13]\<rparr> (rows_by_id [101, 102, 103])) 0
     = [102] \<and>
   map (\<lambda>r. row_payload (objects (rows_by_id [101, 102, 103]) r)) [13] = [103]"
  by code_simp

text \<open>
  C2, the steps of the two passes: the first pass walks the old entries by index \<open>i\<close>
  with a cursor \<open>c\<close> into the kept old entries and, at an entry that is not the instance
  under the cursor, removes one element at position \<open>i\<close> of the observed array without
  moving the cursor; the second pass inserts the payload of a new entry that is not the
  instance under its cursor at position \<open>i\<close>.  The code makes these calls
  (\<open>applyDiff_carries_out_the_steps\<close>), and every insertion meets the array
  (\<open>insertions_inside_the_array\<close>), but a removal call does not always remove an
  element.  With the old rows 1, 2, 3 and the new row 1, row 2 is removed at position 1;
  at \<open>i = 2\<close>, where the old entry is not the instance under the cursor either, the array
  has the two elements 101 and 103 left: \<open>splice(2, 1)\<close> is aimed past its end and removes
  nothing, and row 3 stays in the array.  The position handed to \<open>splice\<close> is the index
  in the old entries, which the removal at \<open>i = 1\<close> has left one too large.
\<close>

theorem C2_removal_past_the_end:
  "arrays (rows_by_id [101, 102, 103]) 0 =
     map (\<lambda>r. row_payload (objects (rows_by_id [101, 102, 103]) r)) [1, 2, 3] \<and>
   longestCommonSubsequenceLeft (rows_by_id [101, 102, 103]) [1, 2, 3] [11] = [1] \<and>
   two_pass_steps (rows_by_id [101, 102, 103]) (Some \<lparr>entries = [1, 2, 3]\<rparr>) \<lparr>entries = [11]\<rparr>
     = [Remove 1, Remove 2] \<and>
   map (\<lambda>s. (start s, deleteCount s, removed s))
     (splices (applyDiff (Some \<lparr>entries = [1, 2, 3]\<rparr>) \<lparr>entries = [11]\<rparr> (rows_by_id [101, 102, 103])))
     = [(1, 1, [102]), (2, 1, [])] \<and>
   arrays (applyDiff (Some \<lparr>entries = [1, 2, 3]\<rparr>) \<lparr>entries = [11]\<rparr> (rows_by_id [101, 102, 103])) 0
     = [101, 103]"
  by code_simp

text \<open>
  C3, minimality: one call removes \<open>|old| - |LCS|\<close> elements and inserts
  \<open>|new| - |LCS|\<close>.  The code does not achieve it.  With the two distinct old rows 1, 2
  and an empty new result the common subsequence is empty, so two elements are to go.
  The code makes its two removal calls (\<open>removal_and_insertion_calls\<close>), but the second
  is aimed at position 1 of an array that has one element left: it takes nothing out, and
  the array ends with one element instead of none.
\<close>

theorem C3_second_removal_takes_nothing:
  "distinct [1, 2 :: ref] \<and>
   arrays (rows_by_id [101, 102]) 0 =
     map (\<lambda>r. row_payload (objects (rows_by_id [101, 102]) r)) [1, 2] \<and>
   longestCommonSubsequenceLeft (rows_by_id [101, 102]) [1, 2] [] = [] \<and>
   map removed (splices (applyDiff (Some \<lparr>entries = [1, 2]\<rparr>) \<lparr>entries = []\<rparr> (rows_by_id [101, 102])))
     = [[101], []] \<and>
   arrays (applyDiff (Some \<lparr>entries = [1, 2]\<rparr>) \<lparr>entries = []\<rparr> (rows_by_id [101, 102])) 0 = [102]"
  by code_simp

text \<open>
  C4, idempotence, with one condition added: for a result \<open>R\<close> of pairwise distinct
  instances whose payloads the observed array holds, \<open>applyDiff(R, R)\<close> makes no splice
  call and leaves the store, the observed array included, as it was, provided
  \<open>comparator_\<close> accepts every entry of \<open>R\<close> against itself.  (The proof uses the last
  condition only.)
\<close>

theorem C4_applyDiff_same_result:
  "distinct (entries R) \<Longrightarrow>
   arrays w (this_observableResults (this w)) = map (\<lambda>r. row_payload (objects w r)) (entries R) \<Longrightarrow>
   (\<forall>e \<in> set (entries R). comparator w e e) \<Longrightarrow>
   applyDiff (Some R) R w = w \<and> splices (applyDiff (Some R) R w) = splices w"
  using applyDiff_diagonal [of R R w] by simp

theorem C4_applyDiff_same_result_witness:
  "distinct (entries \<lparr>entries = [1, 2, 3]\<rparr>) \<and>
   arrays (rows_by_id [101, 102, 103]) (this_observableResults (this (rows_by_id [101, 102, 103]))) =
     map (\<lambda>r. row_payload (objects (rows_by_id [101, 102, 103]) r)) (entries \<lparr>entries = [1, 2, 3]\<rparr>) \<and>
   comparator (rows_by_id [101, 102, 103]) 1 1 \<and>
   comparator (rows_by_id [101, 102, 103]) 2 2 \<and>
   comparator (rows_by_id [101, 102, 103]) 3 3 \<and>
   applyDiff (Some \<lparr>entries = [1, 2, 3]\<rparr>) \<lparr>entries = [1, 2, 3]\<rparr> (rows_by_id [101, 102, 103]) =
     rows_by_id [101, 102, 103]"
proof -
  have d: "distinct (entries \<lparr>entries = [1, 2, 3]\<rparr>)" by simp
  have a: "arrays (rows_by_id [101, 102, 103]) (this_observableResults (this (rows_by_id [101, 102, 103]))) =
     map (\<lambda>r. row_payload (objects (rows_by_id [101, 102, 103]) r)) (entries \<lparr>entries = [1, 2, 3]\<rparr>)"
    by (simp add: rows_by_id_def DiffCalculator_def)
  have c: "comparator (rows_by_id [101, 102, 103]) 1 1"
    "comparator (rows_by_id [101, 102, 103]) 2 2"
    "comparator (rows_by_id [101, 102, 103]) 3 3"
    by (simp_all add: comparator_every rows_by_id_def DiffCalculator_def detectColumns_def
        integer_registry_def)
  then have h: "\<forall>e \<in> set (entries \<lparr>entries = [1, 2, 3]\<rparr>). comparator (rows_by_id [101, 102, 103]) e e"
    by simp
  from C4_applyDiff_same_result [OF d a h] d a c show ?thesis by blast
qed

text \<open>
  C4 as it is stated fails where an evaluator of the registry is not reflexive.  Under
  JavaScript's \<open>==\<close> a row whose projected number is \<open>NaN\<close> differs from itself: the one
  row of \<open>R\<close> is removed and inserted again, two splice calls where the claim has none.
\<close>

theorem C4_nan_row_is_replaced:
  "distinct [1 :: ref] \<and>
   arrays (rows_of_nan [101]) (this_observableResults (this (rows_of_nan [101]))) =
     map (\<lambda>r. row_payload (objects (rows_of_nan [101]) r)) [1] \<and>
   splices (rows_of_nan [101]) = [] \<and>
   map call_shape (splices (applyDiff (Some \<lparr>entries = [1]\<rparr>) \<lparr>entries = [1]\<rparr> (rows_of_nan [101])))
     = [(0, 0, 1, []), (0, 0, 0, [101])]"
  by code_simp

text \<open>
  C5, the comparator: \<open>comparator_(left, right)\<close> holds exactly when, for every resolved
  column, the evaluator that the registry gives for the type of the column and \<open>EQ\<close>
  holds of the two field values.  The conjunction stops at the first column that fails:
  the evaluators called are those of the columns up to that one, that one included, and
  no column behind it is looked at; when no column fails they are those of all columns.
  Result and calls are a function of the calculator and of the projected field values
  alone: entries of any store, with other payloads and other values in the columns that
  are not projected, compare alike when they agree on the projected columns.
\<close>

theorem C5_comparator:
  "(comparator w left right \<longleftrightarrow>
      (\<forall>c \<in> set (this_columns (this w)).
         this_evalRegistry (this w) (getType c) EQ
           (getField (objects w left) c) (getField (objects w right) c))) \<and>
   comparator w left right = fst (comparator_run w left right) \<and>
   (this_columns (this w) = pre @ c # post \<and>
    (\<forall>x \<in> set pre.
       this_evalRegistry (this w) (getType x) EQ
         (getField (objects w left) x) (getField (objects w right) x)) \<and>
    \<not> this_evalRegistry (this w) (getType c) EQ
        (getField (objects w left) c) (getField (objects w right) c)
      \<longrightarrow> comparator_run w left right = (False, pre @ [c])) \<and>
   (comparator w left right \<longrightarrow>
      comparator_run w left right = (True, this_columns (this w))) \<and>
   (this w' = this w \<and>
    (\<forall>c \<in> set (this_columns (this w)).
       getField (objects w' left') c = getField (objects w left) c \<and>
       getField (objects w' right') c = getField (objects w right) c)
      \<longrightarrow> comparator_run w' left' right' = comparator_run w left right \<and>
          comparator w' left' right' = comparator w left right)"
proof -
  let ?test = "\<lambda>w left right c. this_evalRegistry (this w) (getType c) EQ
      (getField (objects w left) c) (getField (objects w right) c)"
  have run: "\<And>w left right. comparator_run w left right =
      every_run (?test w left right) (this_columns (this w))"
    by (simp add: comparator_run_def Let_def)
  have iff: "comparator w left right \<longleftrightarrow>
      (\<forall>c \<in> set (this_columns (this w)). ?test w left right c)"
    by (simp add: comparator_every every_iff)
  have stop: "this_columns (this w) = pre @ c # post \<and>
      (\<forall>x \<in> set pre. ?test w left right x) \<and> \<not> ?test w left right c
        \<longrightarrow> comparator_run w left right = (False, pre @ [c])"
    by (auto simp: run every_run_stops)
  have all: "comparator w left right \<longrightarrow>
      comparator_run w left right = (True, this_columns (this w))"
    unfolding iff run by (auto intro: every_run_all)
  have same: "this w' = this w \<and>
      (\<forall>c \<in> set (this_columns (this w)).
         getField (objects w' left') c = getField (objects w left) c \<and>
         getField (objects w' right') c = getField (objects w right) c)
        \<longrightarrow> comparator_run w' left' right' = comparator_run w left right"
  proof
    assume h: "this w' = this w \<and>
      (\<forall>c \<in> set (this_columns (this w)).
         getField (objects w' left') c = getField (objects w left) c \<and>
         getField (objects w' right') c = getField (objects w right) c)"
    then have "\<forall>c \<in> set (this_columns (this w)). ?test w' left' right' c = ?test w left right c"
      by simp
    from every_run_cong [OF this] h
    show "comparator_run w' left' right' = comparator_run w left right"
      by (simp add: run)
  qed
  from iff stop all same show ?thesis
    by (simp add: comparator_def)
qed

theorem C5_comparator_witness:
  "this_columns (this rows_with_four_columns) = [column_a] @ column_b # [column_c] \<and>
   this_evalRegistry (this rows_with_four_columns) (getType column_a) EQ
     (getField (objects rows_with_four_columns 1) column_a)
     (getField (objects rows_with_four_columns 2) column_a) \<and>
   \<not> this_evalRegistry (this rows_with_four_columns) (getType column_b) EQ
       (getField (objects rows_with_four_columns 1) column_b)
       (getField (objects rows_with_four_columns 2) column_b) \<and>
   comparator_run rows_with_four_columns 1 2 = (False, [column_a, column_b]) \<and>
   \<not> comparator rows_with_four_columns 1 2 \<and>
   getField (objects rows_with_four_columns 3) column_a =
     getField (objects rows_with_four_columns 1) column_a \<and>
   getField (objects rows_with_four_columns 3) column_b =
     getField (objects rows_with_four_columns 1) column_b \<and>
   getField (objects rows_with_four_columns 3) column_c =
     getField (objects rows_with_four_columns 1) column_c \<and>
   getField (objects rows_with_four_columns 3) column_d \<noteq>
     getField (objects rows_with_four_columns 1) column_d \<and>
   row_payload (objects rows_with_four_columns 3) \<noteq>
     row_payload (objects rows_with_four_columns 1) \<and>
   comparator rows_with_four_columns 3 1 \<and>
   comparator_run rows_with_four_columns 3 1 = (True, [column_a, column_b, column_c]) \<and>
   comparator_run rows_with_four_columns 3 2 = comparator_run rows_with_four_columns 1 2"
proof -
  let ?W = rows_with_four_columns
  have cols: "this_columns (this ?W) = [column_a] @ column_b # [column_c]"
    by (simp add: rows_with_four_columns_def DiffCalculator_def detectColumns_def)
  have a12: "this_evalRegistry (this ?W) (getType column_a) EQ
      (getField (objects ?W 1) column_a) (getField (objects ?W 2) column_a)"
    by (simp add: rows_with_four_columns_def DiffCalculator_def integer_registry_def column_a_def)
  have b12: "\<not> this_evalRegistry (this ?W) (getType column_b) EQ
      (getField (objects ?W 1) column_b) (getField (objects ?W 2) column_b)"
    by (simp add: rows_with_four_columns_def DiffCalculator_def integer_registry_def column_b_def)
  have f: "getField (objects ?W 3) column_a = getField (objects ?W 1) column_a"
    "getField (objects ?W 3) column_b = getField (objects ?W 1) column_b"
    "getField (objects ?W 3) column_c = getField (objects ?W 1) column_c"
    by (simp_all add: rows_with_four_columns_def column_a_def column_b_def column_c_def)
  have d: "getField (objects ?W 3) column_d \<noteq> getField (objects ?W 1) column_d"
    "row_payload (objects ?W 3) \<noteq> row_payload (objects ?W 1)"
    by (simp_all add: rows_with_four_columns_def column_d_def)
  have pre: "\<forall>x \<in> set [column_a]. this_evalRegistry (this ?W) (getType x) EQ
      (getField (objects ?W 1) x) (getField (objects ?W 2) x)"
    using a12 by simp
  have agree32: "\<forall>c \<in> set (this_columns (this ?W)).
      getField (objects ?W 3) c = getField (objects ?W 1) c \<and>
      getField (objects ?W 2) c = getField (objects ?W 2) c"
    unfolding cols using f by simp
  have agree31: "\<forall>c \<in> set (this_columns (this ?W)).
      getField (objects ?W 3) c = getField (objects ?W 1) c \<and>
      getField (objects ?W 1) c = getField (objects ?W 1) c"
    unfolding cols using f by simp
  have self: "\<forall>c \<in> set (this_columns (this ?W)).
      this_evalRegistry (this ?W) (getType c) EQ
        (getField (objects ?W 1) c) (getField (objects ?W 1) c)"
    by (simp add: rows_with_four_columns_def DiffCalculator_def integer_registry_def)
  note t12 = C5_comparator [of ?W 1 2 "[column_a]" column_b "[column_c]" ?W 3 2]
  note t11 = C5_comparator [of ?W 1 1 "[column_a]" column_b "[column_c]" ?W 3 1]
  from t12 cols pre b12 have stop: "comparator_run ?W 1 2 = (False, [column_a] @ [column_b])"
    by blast
  then have stop': "comparator_run ?W 1 2 = (False, [column_a, column_b])" by simp
  from t12 have "comparator ?W 1 2 = fst (comparator_run ?W 1 2)" by blast
  with stop have no: "\<not> comparator ?W 1 2" by simp
  from t12 agree32 have same: "comparator_run ?W 3 2 = comparator_run ?W 1 2" by blast
  from t11 self have c11: "comparator ?W 1 1" by blast
  with t11 have r11: "comparator_run ?W 1 1 = (True, this_columns (this ?W))" by blast
  from t11 agree31 have "comparator_run ?W 3 1 = comparator_run ?W 1 1 \<and>
      comparator ?W 3 1 = comparator ?W 1 1" by blast
  with c11 r11 cols have yes: "comparator ?W 3 1"
    and all: "comparator_run ?W 3 1 = (True, [column_a, column_b, column_c])" by simp_all
  from cols a12 b12 stop' no f d yes all same show ?thesis by blast
qed

text \<open>
  C6, the resolution of the columns: a projection that is not empty is returned as it is;
  otherwise the result is the columns of the tables of \<open>from\<close>, table after table, and then
  those of \<open>innerJoin\<close> when there is one, every table in its own order and nothing
  dropped.  The constructor binds this list.  A table \<open>[a, b]\<close> joined with \<open>[c]\<close> gives
  \<open>[a, b, c]\<close>.
\<close>

theorem C6_detectColumns:
  "(columns q \<noteq> [] \<longrightarrow> detectColumns q = columns q) \<and>
   (columns q = [] \<longrightarrow>
      detectColumns q =
        concat (map getColumns (from_tables q)) @
        (case innerJoin q of None \<Rightarrow> [] | Some t \<Rightarrow> getColumns t)) \<and>
   this_columns (DiffCalculator registry q observed) = detectColumns q \<and>
   detectColumns \<lparr>columns = [], from_tables = [\<lparr>getColumns = [a, b]\<rparr>],
                  innerJoin = Some \<lparr>getColumns = [c]\<rparr>\<rparr> = [a, b, c]"
  by (simp add: detectColumns_def DiffCalculator_def push_all_tables split: option.split)

theorem C6_detectColumns_witness:
  "columns \<lparr>columns = [id_column], from_tables = [\<lparr>getColumns = [\<lparr>getName = ''x'', getType = ''string''\<rparr>]\<rparr>],
            innerJoin = None\<rparr> \<noteq> [] \<and>
   detectColumns \<lparr>columns = [id_column], from_tables = [\<lparr>getColumns = [\<lparr>getName = ''x'', getType = ''string''\<rparr>]\<rparr>],
            innerJoin = None\<rparr> = [id_column] \<and>
   columns \<lparr>columns = [], from_tables = [\<lparr>getColumns = [id_column, \<lparr>getName = ''x'', getType = ''string''\<rparr>]\<rparr>,
                                        \<lparr>getColumns = [id_column]\<rparr>],
            innerJoin = Some \<lparr>getColumns = [\<lparr>getName = ''y'', getType = ''string''\<rparr>]\<rparr>\<rparr> = [] \<and>
   detectColumns \<lparr>columns = [], from_tables = [\<lparr>getColumns = [id_column, \<lparr>getName = ''x'', getType = ''string''\<rparr>]\<rparr>,
                                        \<lparr>getColumns = [id_column]\<rparr>],
            innerJoin = Some \<lparr>getColumns = [\<lparr>getName = ''y'', getType = ''string''\<rparr>]\<rparr>\<rparr> =
     [id_column, \<lparr>getName = ''x'', getType = ''string''\<rparr>, id_column, \<lparr>getName = ''y'', getType = ''string''\<rparr>]"
  using C6_detectColumns [of "\<lparr>columns = [id_column], from_tables = [\<lparr>getColumns = [\<lparr>getName = ''x'', getType = ''string''\<rparr>]\<rparr>],
            innerJoin = None\<rparr>", THEN conjunct1]
    C6_detectColumns [of "\<lparr>columns = [], from_tables = [\<lparr>getColumns = [id_column, \<lparr>getName = ''x'', getType = ''string''\<rparr>]\<rparr>,
                                        \<lparr>getColumns = [id_column]\<rparr>],
            innerJoin = Some \<lparr>getColumns = [\<lparr>getName = ''y'', getType = ''string''\<rparr>]\<rparr>\<rparr>",
        THEN conjunct2, THEN conjunct1]
  by simp

text \<open>
  C7, an absent old result: \<open>applyDiff(null, R)\<close> and \<open>applyDiff(E, R)\<close>, \<open>E\<close> a result
  without entries, give the same store, hence the same splice calls and the same observed
  array.  On an empty observed array both leave the payloads of \<open>R\<close>, in order.
\<close>

theorem C7_absent_old:
  "applyDiff None newResults w = applyDiff (Some \<lparr>entries = []\<rparr>) newResults w \<and>
   (arrays w (this_observableResults (this w)) = [] \<longrightarrow>
      arrays (applyDiff None newResults w) (this_observableResults (this w)) =
        map (\<lambda>r. row_payload (objects w r)) (entries newResults))"
proof -
  have same: "applyDiff None newResults w = applyDiff (Some \<lparr>entries = []\<rparr>) newResults w"
    by (simp add: applyDiff_def oldEntries_of_def)
  have steps: "two_pass_steps w None newResults =
      insertion_steps (\<lambda>r. row_payload (objects w r)) (entries newResults) [] 0 0"
    by (simp add: two_pass_steps_def oldEntries_of_def longestCommonSubsequenceRight_def
        longestCommonSubsequence_def)
  have "arrays (applyDiff None newResults w) (this_observableResults (this w)) =
      foldl apply_edit (arrays w (this_observableResults (this w)))
        (two_pass_steps w None newResults)"
    using applyDiff_patched [of w None newResults] unfolding patched_def by simp
  with steps insertions_into_empty_keep [of "[]" "\<lambda>r. row_payload (objects w r)" "entries newResults" 0]
  have "arrays w (this_observableResults (this w)) = [] \<longrightarrow>
      arrays (applyDiff None newResults w) (this_observableResults (this w)) =
        map (\<lambda>r. row_payload (objects w r)) (entries newResults)"
    by simp
  with same show ?thesis by blast
qed

theorem C7_absent_old_witness:
  "arrays (rows_by_id []) (this_observableResults (this (rows_by_id []))) = [] \<and>
   arrays (applyDiff None \<lparr>entries = [11, 13, 14]\<rparr> (rows_by_id []))
     (this_observableResults (this (rows_by_id []))) = [101, 103, 104] \<and>
   applyDiff None \<lparr>entries = [11, 13, 14]\<rparr> (rows_by_id []) =
     applyDiff (Some \<lparr>entries = []\<rparr>) \<lparr>entries = [11, 13, 14]\<rparr> (rows_by_id [])"
proof -
  have h: "arrays (rows_by_id []) (this_observableResults (this (rows_by_id []))) = []"
    by (simp add: rows_by_id_def)
  have v: "map (\<lambda>r. row_payload (objects (rows_by_id []) r)) (entries \<lparr>entries = [11, 13, 14]\<rparr>)
      = [101, 103, 104]"
    by (simp add: rows_by_id_def)
  note both = C7_absent_old [of "\<lparr>entries = [11, 13, 14]\<rparr>" "rows_by_id []"]
  from both [THEN conjunct2, rule_format, OF h] v
  have "arrays (applyDiff None \<lparr>entries = [11, 13, 14]\<rparr> (rows_by_id []))
      (this_observableResults (this (rows_by_id []))) = [101, 103, 104]"
    by simp
  with h both [THEN conjunct1] show ?thesis by blast
qed

text \<open>
  C8, the two runs of the engine agree.  Both lists are read off one list of matched
  index pairs, the result of the engine with the pair itself as collector: the kept old
  entries are the old entries at the first components, the kept new entries are the new
  entries at the second components.  They have the same length, the pairs lie inside
  both sequences and increase in both components, and \<open>comparator_\<close> holds of the
  \<open>k\<close>-th kept old entry and the \<open>k\<close>-th kept new entry.  The second run is made on the
  store that the first pass leaves.
\<close>

theorem C8_two_projections:
  assumes "pairs = longestCommonSubsequence oldEntries newEntries (comparator w) Pair"
    and "keepOld = longestCommonSubsequenceLeft w oldEntries newEntries"
    and "keepNew = longestCommonSubsequenceRight
                     (applyDiff_deletions oldEntries keepOld 0 0 w) oldEntries newEntries"
  shows "keepOld = map (\<lambda>(i, j). oldEntries ! i) pairs \<and>
         keepNew = map (\<lambda>(i, j). newEntries ! j) pairs \<and>
         length keepOld = length keepNew \<and>
         (\<forall>k < length pairs.
            fst (pairs ! k) < length oldEntries \<and> snd (pairs ! k) < length newEntries \<and>
            keepOld ! k = oldEntries ! fst (pairs ! k) \<and>
            keepNew ! k = newEntries ! snd (pairs ! k) \<and>
            comparator w (keepOld ! k) (keepNew ! k)) \<and>
         sorted_wrt (<) (map fst pairs) \<and> sorted_wrt (<) (map snd pairs)"
proof -
  let ?w1 = "applyDiff_deletions oldEntries keepOld 0 0 w"
  have f: "this ?w1 = this w" "objects ?w1 = objects w"
    using deletions_frame [of oldEntries keepOld 0 0 w] by simp_all
  have l: "keepOld = map (\<lambda>(i, j). oldEntries ! i) pairs"
    unfolding assms(1,2) longestCommonSubsequenceLeft_def longestCommonSubsequence_def
    by (rule lcs_backtrack_collect)
  have "keepNew = longestCommonSubsequenceRight w oldEntries newEntries"
    unfolding assms(3) by (rule lcsRight_frame [OF f])
  then have r: "keepNew = map (\<lambda>(i, j). newEntries ! j) pairs"
    unfolding assms(1) longestCommonSubsequenceRight_def longestCommonSubsequence_def
    by (simp add: lcs_backtrack_collect [of _ _ _ "\<lambda>indexLeft indexRight. newEntries ! indexRight"])
  have sound: "\<And>k. k < length pairs \<Longrightarrow>
      fst (pairs ! k) < length oldEntries \<and> snd (pairs ! k) < length newEntries \<and>
      comparator w (oldEntries ! fst (pairs ! k)) (newEntries ! snd (pairs ! k))"
  proof -
    fix k assume "k < length pairs"
    then have "(fst (pairs ! k), snd (pairs ! k)) \<in> set pairs" by simp
    then show "fst (pairs ! k) < length oldEntries \<and> snd (pairs ! k) < length newEntries \<and>
      comparator w (oldEntries ! fst (pairs ! k)) (newEntries ! snd (pairs ! k))"
      unfolding assms(1) longestCommonSubsequence_def by (rule lcs_pairs_sound)
  qed
  have inc: "sorted_wrt (\<lambda>p q. fst p < fst q \<and> snd p < snd q) pairs"
    unfolding assms(1) longestCommonSubsequence_def by (rule lcs_pairs_increasing)
  have s1: "sorted_wrt (<) (map fst pairs)"
    using inc by (simp add: sorted_wrt_map) (erule sorted_wrt_mono_rel [rotated], simp)
  have s2: "sorted_wrt (<) (map snd pairs)"
    using inc by (simp add: sorted_wrt_map) (erule sorted_wrt_mono_rel [rotated], simp)
  show ?thesis
    using l r sound s1 s2 by (simp add: case_prod_unfold)
qed

theorem C8_two_projections_witness:
  "longestCommonSubsequence [1, 2, 3] [11, 13, 14] (comparator (rows_by_id [101, 102, 103])) Pair
     = [(0, 0), (2, 1)] \<and>
   longestCommonSubsequenceLeft (rows_by_id [101, 102, 103]) [1, 2, 3] [11, 13, 14] = [1, 3] \<and>
   longestCommonSubsequenceRight
     (applyDiff_deletions [1, 2, 3] [1, 3] 0 0 (rows_by_id [101, 102, 103])) [1, 2, 3] [11, 13, 14]
     = [11, 13] \<and>
   (1 :: nat) < length [(0 :: nat, 0 :: nat), (2, 1)] \<and>
   comparator (rows_by_id [101, 102, 103]) ([1, 3] ! 1) ([11, 13] ! 1)"
proof -
  have p: "[(0, 0), (2, 1)] =
      longestCommonSubsequence [1, 2, 3] [11, 13, 14] (comparator (rows_by_id [101, 102, 103])) Pair"
    by code_simp
  have l: "[1, 3] = longestCommonSubsequenceLeft (rows_by_id [101, 102, 103]) [1, 2, 3] [11, 13, 14]"
    by code_simp
  have r: "[11, 13] = longestCommonSubsequenceRight
      (applyDiff_deletions [1, 2, 3] [1, 3] 0 0 (rows_by_id [101, 102, 103])) [1, 2, 3] [11, 13, 14]"
    by code_simp
  have one: "(1 :: nat) < length [(0 :: nat, 0 :: nat), (2, 1)]" by simp
  note every_k = C8_two_projections [OF p l r, THEN conjunct2, THEN conjunct2, THEN conjunct2,
      THEN conjunct1, rule_format, OF one]
  then have c: "comparator (rows_by_id [101, 102, 103]) ([1, 3] ! 1) ([11, 13] ! 1)"
    by blast
  from p [symmetric] l [symmetric] r [symmetric] one c show ?thesis by blast
qed

text \<open>
  C9, frame: a call leaves the members of the calculator (registry, query, columns and the
  reference to the observed array) and the entry objects as they were, and every array
  but the observed one.  The splice calls it adds to the log all go to the observed array,
  each removes at most one element and inserts none, or inserts one and removes none; the
  observed array after the call is the array before it with these calls replayed.
\<close>

theorem C9_frame:
  "this (applyDiff oldResults newResults w) = this w \<and>
   objects (applyDiff oldResults newResults w) = objects w \<and>
   (\<forall>b. b \<noteq> this_observableResults (this w) \<longrightarrow>
      arrays (applyDiff oldResults newResults w) b = arrays w b) \<and>
   (\<exists>calls. splices (applyDiff oldResults newResults w) = splices w @ calls \<and>
      list_all (\<lambda>s. target s = this_observableResults (this w) \<and> single_element s) calls \<and>
      arrays (applyDiff oldResults newResults w) (this_observableResults (this w)) =
        foldl replay (arrays w (this_observableResults (this w))) calls)"
proof -
  let ?a = "this_observableResults (this w)"
  let ?w' = "applyDiff oldResults newResults w"
  from applyDiff_patched [of w oldResults newResults] obtain calls where
    t: "this ?w' = this w" and o: "objects ?w' = objects w" and
    a: "arrays ?w' = (arrays w)(?a := foldl apply_edit (arrays w ?a) (two_pass_steps w oldResults newResults))" and
    s: "splices ?w' = splices w @ calls" and
    c: "map call_shape calls = map (edit_call ?a) (two_pass_steps w oldResults newResults)" and
    e: "list_all single_element calls" and
    r: "foldl replay (arrays w ?a) calls = arrays ?w' ?a"
    unfolding patched_def by blast
  have tg: "list_all (\<lambda>s. target s = ?a) calls"
    using c by (rule calls_target)
  show ?thesis
    using t o a s e r tg by (auto simp: list_all_iff)
qed

theorem C9_frame_witness:
  "(7 :: ref) \<noteq> this_observableResults (this (rows_by_id [101, 102, 103])) \<and>
   arrays (applyDiff (Some \<lparr>entries = [1, 2, 3]\<rparr>) \<lparr>entries = [11, 13, 14]\<rparr> (rows_by_id [101, 102, 103])) 7
     = arrays (rows_by_id [101, 102, 103]) 7 \<and>
   this (applyDiff (Some \<lparr>entries = [1, 2, 3]\<rparr>) \<lparr>entries = [11, 13, 14]\<rparr> (rows_by_id [101, 102, 103]))
     = this (rows_by_id [101, 102, 103])"
  using C9_frame [of "Some \<lparr>entries = [1, 2, 3]\<rparr>" "\<lparr>entries = [11, 13, 14]\<rparr>" "rows_by_id [101, 102, 103]"]
  by (simp add: rows_by_id_def DiffCalculator_def)

text \<open>
  C10, no column: with an empty list of resolved columns \<open>comparator_\<close> holds of every two
  entries.  The engine then matches as many entries as the shorter result has, and two
  results of the same length are taken for equal: the call changes nothing, whatever the
  fields and the payloads of the entries.  The list is empty for a query that projects
  all columns of tables that have none.
\<close>

theorem C10_no_columns:
  "this_columns (this w) = [] \<Longrightarrow>
     comparator w left right \<and>
     length (longestCommonSubsequenceLeft w (entries old) (entries new)) =
       min (length (entries old)) (length (entries new)) \<and>
     (length (entries old) = length (entries new) \<longrightarrow> applyDiff (Some old) new w = w) \<and>
     (columns q = [] \<and> concat (map getColumns (from_tables q)) = [] \<and>
      (case innerJoin q of None \<Rightarrow> [] | Some t \<Rightarrow> getColumns t) = []
        \<longrightarrow> this_columns (DiffCalculator registry q observed) = [])"
proof -
  assume "this_columns (this w) = []"
  then have c: "\<And>a b. comparator w a b" by (simp add: comparator_every)
  have "length (longestCommonSubsequenceLeft w (entries old) (entries new)) =
       min (length (entries old)) (length (entries new))"
    unfolding longestCommonSubsequenceLeft_def longestCommonSubsequence_def
    using c by (rule lcs_backtrack_all_equal)
  moreover have "length (entries old) = length (entries new) \<longrightarrow> applyDiff (Some old) new w = w"
    using applyDiff_diagonal [of old new w] c by simp
  moreover have "columns q = [] \<and> concat (map getColumns (from_tables q)) = [] \<and>
      (case innerJoin q of None \<Rightarrow> [] | Some t \<Rightarrow> getColumns t) = []
        \<longrightarrow> this_columns (DiffCalculator registry q observed) = []"
    by (simp add: DiffCalculator_def detectColumns_def push_all_tables split: option.split)
  ultimately show ?thesis using c by simp
qed

theorem C10_no_columns_witness:
  "this_columns (this (rows_without_columns [101, 102, 103])) = [] \<and>
   comparator (rows_without_columns [101, 102, 103]) 1 2 \<and>
   length (entries \<lparr>entries = [1, 2, 3]\<rparr>) = length (entries \<lparr>entries = [4, 5, 6]\<rparr>) \<and>
   applyDiff (Some \<lparr>entries = [1, 2, 3]\<rparr>) \<lparr>entries = [4, 5, 6]\<rparr> (rows_without_columns [101, 102, 103])
     = rows_without_columns [101, 102, 103] \<and>
   columns \<lparr>columns = [], from_tables = [\<lparr>getColumns = []\<rparr>], innerJoin = None\<rparr>
     = ([] :: string column list) \<and>
   this_columns (DiffCalculator integer_registry
     \<lparr>columns = [], from_tables = [\<lparr>getColumns = []\<rparr>], innerJoin = None\<rparr> 0) = []"
proof -
  have h: "this_columns (this (rows_without_columns [101, 102, 103])) = []"
    by (simp add: rows_without_columns_def DiffCalculator_def detectColumns_def)
  from C10_no_columns [OF h, of 1 2 "\<lparr>entries = [1, 2, 3]\<rparr>" "\<lparr>entries = [4, 5, 6]\<rparr>"
      "\<lparr>columns = [], from_tables = [\<lparr>getColumns = []\<rparr>], innerJoin = None\<rparr>" integer_registry 0] h
  show ?thesis by simp
qed

end
